theory Spec2Isabelle
  imports Main "HOL-Library.Sublist" "HOL-Library.Word"
begin

section \<open>Helpers of \<open>tapas-dl.py\<close>\<close>

subsection \<open>Python's \<open>str\<close> on integers and \<open>str.zfill\<close>\<close>

text \<open>
  \<open>str(n)\<close> of a Python integer is its decimal representation, with a leading \<open>-\<close>
  for a negative number. \<open>digit_char d\<close> is the decimal digit \<open>d < 10\<close>.
\<close>

definition digit_char :: "nat \<Rightarrow> char" where
  "digit_char d = ''0123456789'' ! d"

fun str_nat :: "nat \<Rightarrow> string" where
  "str_nat n = (if n < 10 then [digit_char n] else str_nat (n div 10) @ [digit_char (n mod 10)])"

declare str_nat.simps [simp del]

definition str_int :: "int \<Rightarrow> string" where
  "str_int i = (if i < 0 then CHR ''-'' # str_nat (nat (- i)) else str_nat (nat i))"

text \<open>
  \<open>s.zfill(width)\<close>: a string at least \<open>width\<close> long is returned as it is; otherwise
  zeros are inserted on the left, after a leading sign if there is one.
\<close>

definition zfill :: "string \<Rightarrow> nat \<Rightarrow> string" where
  "zfill s width =
     (if width \<le> length s then s
      else (case s of
              c # cs \<Rightarrow>
                if c = CHR ''+'' \<or> c = CHR ''-''
                then c # replicate (width - length s) CHR ''0'' @ cs
                else replicate (width - length s) CHR ''0'' @ s
            | [] \<Rightarrow> replicate (width - length s) CHR ''0'' @ s))"

text \<open>\<open>def lead0(num, max): return str(num).zfill(len(str(max)))\<close>\<close>

definition lead0 :: "int \<Rightarrow> int \<Rightarrow> string" where
  "lead0 num mx = zfill (str_int num) (length (str_int mx))"

text \<open>
  Reading a string of decimal digits back as a number, to say what a decimal
  representation is.
\<close>

definition decimal_value :: "string \<Rightarrow> nat" where
  "decimal_value s = foldl (\<lambda>a c. 10 * a + (of_char c - 48)) 0 s"

subsection \<open>The path sanitizer\<close>

text \<open>
  \<open>check_path(path, slash=True, fat=False)\<close> keeps the characters of \<open>path\<close> that are
  not in \<open>evil_chars\<close>. \<open>CHR 0x5C\<close> is the backslash and \<open>CHR 0x22\<close> the double quote.
\<close>

definition fat_chars :: "char list" where
  "fat_chars = [CHR ''?'', CHR ''<'', CHR ''>'', CHR 0x5C, CHR '':'', CHR ''*'', CHR ''|'',
                CHR 0x22, CHR ''^'']"

definition evil_chars :: "bool \<Rightarrow> bool \<Rightarrow> char list" where
  "evil_chars slash fat = (if slash then [CHR ''/''] else []) @ (if fat then fat_chars else [])"

definition check_path :: "string \<Rightarrow> bool \<Rightarrow> bool \<Rightarrow> string" where
  "check_path path slash fat = filter (\<lambda>char. char \<notin> set (evil_chars slash fat)) path"

subsection \<open>Python's \<open>str.split\<close>, \<open>str.join\<close> and list indexing\<close>

text \<open>
  \<open>s.split(sep)\<close> scans \<open>s\<close> from the left and cuts at every occurrence of \<open>sep\<close>,
  the occurrences not overlapping; \<open>cur\<close> is the field read so far. Python raises
  ValueError for an empty separator; every separator in the program is a non-empty
  literal, and the guard \<open>sep \<noteq> []\<close> only keeps the recursion well-founded.
\<close>

function split_aux :: "string \<Rightarrow> string \<Rightarrow> string \<Rightarrow> string list" where
  "split_aux sep cur [] = [cur]"
| "split_aux sep cur (c # cs) =
     (if sep \<noteq> [] \<and> prefix sep (c # cs)
      then cur # split_aux sep [] (drop (length sep) (c # cs))
      else split_aux sep (cur @ [c]) cs)"
  by pat_completeness auto
termination
  by (relation "measure (\<lambda>(sep, cur, s). length s)") (auto simp: neq_Nil_conv)

definition str_split :: "string \<Rightarrow> string \<Rightarrow> string list" where
  "str_split s sep = split_aux sep [] s"

text \<open>\<open>sep.join(xs)\<close>\<close>

fun join :: "string \<Rightarrow> string list \<Rightarrow> string" where
  "join sep [] = []"
| "join sep [x] = x"
| "join sep (x # y # ys) = x @ sep @ join sep (y # ys)"

datatype request = SeriesQuery int | EpisodeGet int | ImageGet string

datatype error = IndexError | TypeError | RequestFailed request

text \<open>\<open>xs[i]\<close>: a negative index counts from the end, an index out of range raises.\<close>

definition getitem :: "'a list \<Rightarrow> int \<Rightarrow> error + 'a" where
  "getitem xs i =
     (if 0 \<le> i \<and> i < int (length xs) then Inr (xs ! nat i)
      else if i < 0 \<and> - i \<le> int (length xs) then Inr (xs ! nat (int (length xs) + i))
      else Inl IndexError)"

section \<open>The series resolver\<close>

text \<open>
  \<^verbatim>\<open>
  def get_series_id(url_or_name: str):
      if url_or_name.startswith("http"):
          return url_or_name.split("/series/")[1].split("/")[0]
      return url_or_name
  \<close>
\<close>

definition get_series_id :: "string \<Rightarrow> error + string" where
  "get_series_id url_or_name =
     (if prefix ''http'' url_or_name
      then (case getitem (str_split url_or_name ''/series/'') 1 of
              Inl e \<Rightarrow> Inl e
            | Inr rest \<Rightarrow> getitem (str_split rest ''/'') 0)
      else Inr url_or_name)"

section \<open>Episode documents and their classification\<close>

text \<open>
  The HTML parser and selector engine (pyquery) is a library outside the program. A
  fetched episode page is modelled by what the two selections of the program see of it:
  \<open>content_imgs\<close> are the elements matched by \<open>img.content__img\<close>, in document order,
  each as its attribute list; \<open>body_paras\<close> are the texts (\<open>.text()\<close>) of the elements
  matched by \<open>article.viewer__body p\<close>, in document order.
\<close>

type_synonym element = "(string \<times> string) list"

record document =
  content_imgs :: "element list"
  body_paras :: "string list"

text \<open>\<open>pq(img).attr(name)\<close> is \<open>None\<close> for a missing attribute.\<close>

definition attr :: "element \<Rightarrow> string \<Rightarrow> string option" where
  "attr el name = map_of el name"

text \<open>\<open>a or b\<close> on optional strings: \<open>None\<close> and the empty string are falsy.\<close>

definition py_or :: "string option \<Rightarrow> string option \<Rightarrow> string option" where
  "py_or a b = (case a of Some (c # cs) \<Rightarrow> a | _ \<Rightarrow> b)"

text \<open>The truth value of an optional string, as \<open>if src:\<close> reads it.\<close>

definition truthy :: "string option \<Rightarrow> bool" where
  "truthy a = (case a of Some (c # cs) \<Rightarrow> True | _ \<Rightarrow> False)"

text \<open>
  \<^verbatim>\<open>
  for img in doc("img.content__img"):
      src = pq(img).attr("src") or pq(img).attr("data-src")
      if src:
          imgs.append(src.split("?")[0])
  \<close>
  \<open>split\<close> returns at least one field, so \<open>[0]\<close> cannot raise here.
\<close>

fun comic_images_loop :: "element list \<Rightarrow> string list \<Rightarrow> string list" where
  "comic_images_loop [] imgs = imgs"
| "comic_images_loop (img # rest) imgs =
     (case py_or (attr img ''src'') (attr img ''data-src'') of
        Some (c # cs) \<Rightarrow> comic_images_loop rest (imgs @ [hd (str_split (c # cs) ''?'')])
      | _ \<Rightarrow> comic_images_loop rest imgs)"

definition parse_comic_images :: "document \<Rightarrow> string list" where
  "parse_comic_images html = comic_images_loop (content_imgs html) []"

text \<open>
  \<^verbatim>\<open>
  for p in doc("article.viewer__body p"):
      txt = pq(p).text()
      if txt:
          paras.append(txt)
  return "\n\n".join(paras)
  \<close>
  \<open>CHR 0x0A\<close> is the newline.
\<close>

fun novel_text_loop :: "string list \<Rightarrow> string list \<Rightarrow> string list" where
  "novel_text_loop [] paras = paras"
| "novel_text_loop (txt # rest) paras =
     (if txt \<noteq> [] then novel_text_loop rest (paras @ [txt]) else novel_text_loop rest paras)"

definition parse_novel_text :: "document \<Rightarrow> string" where
  "parse_novel_text html = join [CHR 0x0A, CHR 0x0A] (novel_text_loop (body_paras html) [])"

section \<open>The world: file system and network\<close>

text \<open>
  A path is its list of components (\<open>basePath / name\<close> appends one). A path names a
  directory or a file; a file holds the bytes written in binary mode or the text
  written in text mode. File-system operations are taken to succeed.
\<close>

type_synonym path = "string list"

datatype file_data = Binary "8 word list" | Text string

datatype node = Dir | File file_data

text \<open>
  The state of a run: the file system, and the network requests made so far, oldest
  first (a request that fails has been made, too).
\<close>

record world =
  files :: "path \<rightharpoonup> node"
  requests :: "request list"

text \<open>
  The remote host, and Python's \<open>int()\<close> on strings, are parameters. \<open>series_reply n\<close> is
  what \<open>r.json()["data"]["series"]\<close> gives for the metadata query for \<open>n\<close>: \<open>NoAnswer\<close> if the
  request or the decoding of its answer raises, \<open>NullSeries\<close> if the answer holds \<open>null\<close>
  for the series (Python's \<open>None\<close>, which \<open>fetch_series\<close> returns without raising), and
  \<open>SeriesObject\<close> for a series object; \<open>episode_reply\<close> is the page of an episode, or \<open>None\<close> if
  the request or \<open>raise_for_status\<close> raises; \<open>image_reply\<close> is the body at an image URL,
  or \<open>None\<close> if the request raises. \<open>py_int s\<close> is \<open>None\<close> where \<open>int(s)\<close> raises ValueError.
  A series object that is returned has the fields the query asks for (\<open>title\<close>,
  \<open>creator.name\<close>, \<open>episodes.entries\<close> with \<open>id\<close> and \<open>title\<close>). The host answers the same
  request in the same way throughout a run and between runs.
\<close>

record episode =
  ep_id :: int
  ep_title :: string

record series =
  series_title :: string
  series_creator :: string
  series_entries :: "episode list"

datatype series_answer = NoAnswer | NullSeries | SeriesObject series

record env =
  py_int :: "string \<Rightarrow> int option"
  series_reply :: "int \<Rightarrow> series_answer"
  episode_reply :: "int \<Rightarrow> document option"
  image_reply :: "string \<Rightarrow> 8 word list option"

record options =
  opt_force :: bool
  opt_restrict :: bool
  opt_base :: path

datatype outcome = Finished world | Aborted error world

definition path_exists :: "world \<Rightarrow> path \<Rightarrow> bool" where
  "path_exists w p = (files w p \<noteq> None)"

definition log_request :: "request \<Rightarrow> world \<Rightarrow> world" where
  "log_request r w = w\<lparr>requests := requests w @ [r]\<rparr>"

definition write_file :: "path \<Rightarrow> file_data \<Rightarrow> world \<Rightarrow> world" where
  "write_file p d w = w\<lparr>files := (files w)(p \<mapsto> File d)\<rparr>"

text \<open>\<open>savePath.mkdir(parents=True)\<close>: the directory and its missing ancestors.\<close>

definition mkdir_parents :: "path \<Rightarrow> world \<Rightarrow> world" where
  "mkdir_parents p w =
     w\<lparr>files := (\<lambda>q. if q \<in> set (prefixes p) \<and> files w q = None then Some Dir else files w q)\<rparr>"

section \<open>The main loop\<close>

text \<open>
  \<open>fetch_series\<close>, with the \<open>try\<close> around its call: \<open>NoAnswer\<close> is the \<open>except\<close> branch.
  \<open>int(series_id)\<close> is evaluated before the request is sent.
\<close>

definition fetch_series :: "env \<Rightarrow> string \<Rightarrow> world \<Rightarrow> series_answer \<times> world" where
  "fetch_series E series_id w =
     (case py_int E series_id of
        None \<Rightarrow> (NoAnswer, w)
      | Some n \<Rightarrow> (series_reply E n, log_request (SeriesQuery n) w))"

text \<open>
  The file names of lines 179 to 182 and 191 to 192. \<open>img_url.split('.')[-1]\<close> is the
  last field; \<open>split\<close> returns at least one field (lemma \<open>str_split_nonempty\<close> below), so
  the index cannot raise.
\<close>

definition image_fname :: "options \<Rightarrow> int \<Rightarrow> int \<Rightarrow> int \<Rightarrow> int \<Rightarrow> string \<Rightarrow> string \<Rightarrow> string" where
  "image_fname opts ep_idx n_eps img_idx n_imgs title img_url =
     check_path (lead0 ep_idx n_eps @ '' - '' @ lead0 img_idx n_imgs @ '' - '' @ title @ ''.''
                 @ last (str_split img_url ''.''))
       True (opt_restrict opts)"

definition prose_fname :: "options \<Rightarrow> int \<Rightarrow> int \<Rightarrow> string \<Rightarrow> string" where
  "prose_fname opts ep_idx n_eps title =
     check_path (lead0 ep_idx n_eps @ '' - '' @ title @ ''.txt'') True (opt_restrict opts)"

text \<open>The body of the loop over the images of one episode (lines 179 to 187).\<close>

definition save_image ::
  "env \<Rightarrow> options \<Rightarrow> path \<Rightarrow> int \<Rightarrow> int \<Rightarrow> string \<Rightarrow> int \<Rightarrow> int \<Rightarrow> string \<Rightarrow> world \<Rightarrow> outcome" where
  "save_image E opts savePath ep_idx n_eps title img_idx n_imgs img_url w =
     (let fpath = savePath @ [image_fname opts ep_idx n_eps img_idx n_imgs title img_url] in
      if \<not> path_exists w fpath
      then (case image_reply E img_url of
              None \<Rightarrow> Aborted (RequestFailed (ImageGet img_url)) (log_request (ImageGet img_url) w)
            | Some imgdata \<Rightarrow>
                Finished (write_file fpath (Binary imgdata) (log_request (ImageGet img_url) w)))
      else Finished w)"

fun save_images ::
  "env \<Rightarrow> options \<Rightarrow> path \<Rightarrow> int \<Rightarrow> int \<Rightarrow> string \<Rightarrow> int \<Rightarrow> int \<Rightarrow> string list \<Rightarrow> world \<Rightarrow> outcome" where
  "save_images E opts savePath ep_idx n_eps title n_imgs img_idx [] w = Finished w"
| "save_images E opts savePath ep_idx n_eps title n_imgs img_idx (img_url # rest) w =
     (case save_image E opts savePath ep_idx n_eps title img_idx n_imgs img_url w of
        Aborted e w' \<Rightarrow> Aborted e w'
      | Finished w' \<Rightarrow> save_images E opts savePath ep_idx n_eps title n_imgs (img_idx + 1) rest w')"

text \<open>The body of the loop over the episodes (lines 167 to 194).\<close>

definition save_episode ::
  "env \<Rightarrow> options \<Rightarrow> path \<Rightarrow> int \<Rightarrow> int \<Rightarrow> episode \<Rightarrow> world \<Rightarrow> outcome" where
  "save_episode E opts savePath n_eps ep_idx ep w =
     (case episode_reply E (ep_id ep) of
        None \<Rightarrow> Aborted (RequestFailed (EpisodeGet (ep_id ep))) (log_request (EpisodeGet (ep_id ep)) w)
      | Some html \<Rightarrow>
          (let w1 = log_request (EpisodeGet (ep_id ep)) w;
               imgs = parse_comic_images html
           in if imgs \<noteq> []
              then save_images E opts savePath ep_idx n_eps (ep_title ep) (int (length imgs)) 1 imgs w1
              else (let text = parse_novel_text html;
                        fname = prose_fname opts ep_idx n_eps (ep_title ep)
                    in Finished (write_file (savePath @ [fname]) (Text text) w1))))"

fun episode_loop ::
  "env \<Rightarrow> options \<Rightarrow> path \<Rightarrow> int \<Rightarrow> int \<Rightarrow> episode list \<Rightarrow> world \<Rightarrow> outcome" where
  "episode_loop E opts savePath n_eps ep_idx [] w = Finished w"
| "episode_loop E opts savePath n_eps ep_idx (ep # rest) w =
     (case save_episode E opts savePath n_eps ep_idx ep w of
        Aborted e w' \<Rightarrow> Aborted e w'
      | Finished w' \<Rightarrow> episode_loop E opts savePath n_eps (ep_idx + 1) rest w')"

text \<open>
  The destination directory of a series: \<open>basePath / check_path(f"{name} [{seriesName}]", ...)\<close>.
\<close>

definition save_path :: "options \<Rightarrow> string \<Rightarrow> string \<Rightarrow> path" where
  "save_path opts name seriesName =
     opt_base opts @ [check_path (name @ '' ['' @ seriesName @ '']'') True (opt_restrict opts)]"

text \<open>
  The body of the loop over the URLs (lines 144 to 196). \<open>Finished\<close> is the end of the
  body or a \<open>continue\<close>; \<open>Aborted\<close> is an exception that nothing catches. When the
  series is \<open>None\<close>, \<open>series["title"]\<close> at line 151, outside the \<open>try\<close>, raises TypeError.
\<close>

definition process_series :: "env \<Rightarrow> options \<Rightarrow> string \<Rightarrow> world \<Rightarrow> outcome" where
  "process_series E opts url w =
     (case get_series_id url of
        Inl e \<Rightarrow> Aborted e w
      | Inr seriesName \<Rightarrow>
          (case fetch_series E seriesName w of
             (NoAnswer, w1) \<Rightarrow> Finished w1
           | (NullSeries, w1) \<Rightarrow> Aborted TypeError w1
           | (SeriesObject sr, w1) \<Rightarrow>
               (let episodes = series_entries sr;
                    savePath = save_path opts (series_title sr) seriesName
                in if \<not> path_exists w1 savePath
                   then episode_loop E opts savePath (int (length episodes)) 1 episodes
                          (mkdir_parents savePath w1)
                   else if \<not> opt_force opts then Finished w1
                   else episode_loop E opts savePath (int (length episodes)) 1 episodes w1)))"

fun main :: "env \<Rightarrow> options \<Rightarrow> string list \<Rightarrow> world \<Rightarrow> outcome" where
  "main E opts [] w = Finished w"
| "main E opts (url # urls) w =
     (case process_series E opts url w of
        Aborted e w' \<Rightarrow> Aborted e w'
      | Finished w' \<Rightarrow> main E opts urls w')"

text \<open>The world an outcome leaves behind, whether the run ended or was aborted.\<close>

definition world_of :: "outcome \<Rightarrow> world" where
  "world_of out = (case out of Finished w \<Rightarrow> w | Aborted e w \<Rightarrow> w)"

section \<open>Files and requests by position\<close>

text \<open>
  The notions used to say what a loop has done. Positions are counted from 0: the
  episode at position \<open>k\<close> of a list has the index \<open>k + 1\<close> of \<open>enumerate(episodes, 1)\<close>, the
  image at position \<open>j\<close> the index \<open>j + 1\<close> of \<open>enumerate(imgs, 1)\<close>; \<open>n\<close> and \<open>m\<close> are the sizes
  the indices are padded to. \<open>image_path\<close> and \<open>prose_path\<close> are the paths of lines 183 and
  193 at these positions.
\<close>

definition image_path :: "options \<Rightarrow> path \<Rightarrow> int \<Rightarrow> nat \<Rightarrow> string \<Rightarrow> int \<Rightarrow> nat \<Rightarrow> string \<Rightarrow> path" where
  "image_path opts savePath n k title m j img_url =
     savePath @ [image_fname opts (int k + 1) n (int j + 1) m title img_url]"

definition prose_path :: "options \<Rightarrow> path \<Rightarrow> int \<Rightarrow> nat \<Rightarrow> string \<Rightarrow> path" where
  "prose_path opts savePath n k title = savePath @ [prose_fname opts (int k + 1) n title]"

text \<open>The image URLs of the page of an episode (none if the page cannot be fetched).\<close>

definition gallery_of :: "env \<Rightarrow> episode \<Rightarrow> string list" where
  "gallery_of E ep =
     (case episode_reply E (ep_id ep) of None \<Rightarrow> [] | Some html \<Rightarrow> parse_comic_images html)"

text \<open>
  The image requests of a gallery: one for each image, in order, whose file is
  missing in the world \<open>w\<close>.
\<close>

definition gallery_requests ::
  "options \<Rightarrow> path \<Rightarrow> int \<Rightarrow> nat \<Rightarrow> string \<Rightarrow> string list \<Rightarrow> world \<Rightarrow> request list" where
  "gallery_requests opts savePath n k title imgs w =
     map (\<lambda>(j, img_url). ImageGet img_url)
       (filter (\<lambda>(j, img_url).
                  \<not> path_exists w (image_path opts savePath n k title (int (length imgs)) j img_url))
          (enumerate 0 imgs))"

text \<open>The requests of the episode at position \<open>k\<close>: its page, then its missing images.\<close>

definition episode_requests ::
  "env \<Rightarrow> options \<Rightarrow> path \<Rightarrow> int \<Rightarrow> world \<Rightarrow> nat \<Rightarrow> episode \<Rightarrow> request list" where
  "episode_requests E opts savePath n w k ep =
     EpisodeGet (ep_id ep) # gallery_requests opts savePath n k (ep_title ep) (gallery_of E ep) w"

text \<open>
  The episode at position \<open>k\<close> has been saved in \<open>w'\<close>, starting from \<open>w\<close>: a prose page has
  its text at the prose path; of a gallery, every image has its file, with the content
  it had in \<open>w\<close> if it was there and with the bytes at its URL otherwise.
\<close>

definition episode_saved ::
  "env \<Rightarrow> options \<Rightarrow> path \<Rightarrow> int \<Rightarrow> world \<Rightarrow> world \<Rightarrow> nat \<Rightarrow> episode \<Rightarrow> bool" where
  "episode_saved E opts savePath n w w' k ep =
     (case episode_reply E (ep_id ep) of
        None \<Rightarrow> False
      | Some html \<Rightarrow>
          if parse_comic_images html = []
          then files w' (prose_path opts savePath n k (ep_title ep))
                 = Some (File (Text (parse_novel_text html)))
          else list_all
                 (\<lambda>(j, img_url).
                    files w' (image_path opts savePath n k (ep_title ep)
                                (int (length (parse_comic_images html))) j img_url)
                    = (if path_exists w (image_path opts savePath n k (ep_title ep)
                                           (int (length (parse_comic_images html))) j img_url)
                       then files w (image_path opts savePath n k (ep_title ep)
                                       (int (length (parse_comic_images html))) j img_url)
                       else map_option (\<lambda>imgdata. File (Binary imgdata)) (image_reply E img_url)))
                 (enumerate 0 (parse_comic_images html)))"

text \<open>
  The paths of the files of the episode at position \<open>k\<close>: the prose path for a prose
  page, the image paths of the gallery otherwise (none if the page cannot be fetched).
\<close>

definition episode_files :: "env \<Rightarrow> options \<Rightarrow> path \<Rightarrow> int \<Rightarrow> nat \<Rightarrow> episode \<Rightarrow> path list" where
  "episode_files E opts savePath n k ep =
     (case episode_reply E (ep_id ep) of
        None \<Rightarrow> []
      | Some html \<Rightarrow>
          if parse_comic_images html = [] then [prose_path opts savePath n k (ep_title ep)]
          else map (\<lambda>(j, img_url).
                      image_path opts savePath n k (ep_title ep)
                        (int (length (parse_comic_images html))) j img_url)
                 (enumerate 0 (parse_comic_images html)))"

text \<open>
  The paths under \<open>savePath\<close> whose name starts with the label of position \<open>k\<close>; every
  file of the episode at position \<open>k\<close> is among them.
\<close>

definition episode_area :: "path \<Rightarrow> int \<Rightarrow> nat \<Rightarrow> path set" where
  "episode_area savePath n k = {p. \<exists>r. p = savePath @ [lead0 (int k + 1) n @ r]}"

text \<open>Every page of the episodes, and every image of their galleries, can be fetched.\<close>

definition all_fetchable :: "env \<Rightarrow> episode list \<Rightarrow> bool" where
  "all_fetchable E eps =
     list_all (\<lambda>ep. episode_reply E (ep_id ep) \<noteq> None \<and>
                     list_all (\<lambda>img_url. image_reply E img_url \<noteq> None) (gallery_of E ep)) eps"

section \<open>An example host\<close>

text \<open>
  A small remote host for concrete runs. Series 1 has three episodes: a comic page with
  two images (and a caption paragraph), a prose page with two non-empty paragraphs, and
  an episode whose page cannot be fetched. Series 2 has one prose episode. On the
  identifiers used here \<open>ex_int\<close> agrees with Python's \<open>int()\<close>.
\<close>

definition ex_int :: "string \<Rightarrow> int option" where
  "ex_int s =
     (if s = ''1'' then Some 1 else if s = ''2'' then Some 2 else if s = ''3'' then Some 3 else None)"

definition ex_comic :: document where
  "ex_comic =
     \<lparr>content_imgs =
        [[(''class'', ''content__img''), (''src'', ''https://cdn.example/a.png?w=1'')],
         [(''class'', ''content__img''), (''src'', []), (''data-src'', ''https://cdn.example/b.png'')]],
      body_paras = [''caption'']\<rparr>"

definition ex_novel :: document where
  "ex_novel = \<lparr>content_imgs = [], body_paras = [''First.'', [], ''Second.'']\<rparr>"

definition ex_series1 :: series where
  "ex_series1 =
     \<lparr>series_title = ''Alpha'', series_creator = ''Ann'',
      series_entries =
        [\<lparr>ep_id = 11, ep_title = ''One''\<rparr>, \<lparr>ep_id = 12, ep_title = ''Two''\<rparr>,
         \<lparr>ep_id = 13, ep_title = ''Three''\<rparr>]\<rparr>"

definition ex_series2 :: series where
  "ex_series2 =
     \<lparr>series_title = ''Beta'', series_creator = ''Bob'',
      series_entries = [\<lparr>ep_id = 21, ep_title = ''Intro''\<rparr>]\<rparr>"

text \<open>
  Series 3 has the comic page and the prose page of series 1 and nothing else, so all of
  it can be fetched. \<open>ex_forced\<close> is a world in which its directory is there already,
  with the first image of episode 1 and the text of episode 2, both with other content,
  and without the second image.
\<close>

definition ex_series3 :: series where
  "ex_series3 =
     \<lparr>series_title = ''Gamma'', series_creator = ''Cy'',
      series_entries = [\<lparr>ep_id = 11, ep_title = ''One''\<rparr>, \<lparr>ep_id = 12, ep_title = ''Two''\<rparr>]\<rparr>"

definition ex_forced :: world where
  "ex_forced =
     \<lparr>files = [[] \<mapsto> Dir, [''out''] \<mapsto> Dir, [''out'', ''Gamma [3]''] \<mapsto> Dir,
               [''out'', ''Gamma [3]'', ''1 - 1 - One.png''] \<mapsto> File (Binary [9]),
               [''out'', ''Gamma [3]'', ''2 - Two.txt''] \<mapsto> File (Text ''old'')],
      requests = []\<rparr>"

definition ex_env :: env where
  "ex_env =
     \<lparr>py_int = ex_int,
      series_reply =
        (\<lambda>n. if n = 1 then SeriesObject ex_series1 else if n = 2 then SeriesObject ex_series2
             else if n = 3 then SeriesObject ex_series3 else NoAnswer),
      episode_reply =
        (\<lambda>i. if i = 11 then Some ex_comic else if i = 12 \<or> i = 21 then Some ex_novel else None),
      image_reply =
        (\<lambda>u. if u = ''https://cdn.example/a.png'' then Some [1, 2]
             else if u = ''https://cdn.example/b.png'' then Some [3] else None)\<rparr>"

definition ex_opts :: options where
  "ex_opts = \<lparr>opt_force = False, opt_restrict = False, opt_base = [''out'']\<rparr>"

definition ex_world :: world where
  "ex_world = \<lparr>files = Map.empty, requests = []\<rparr>"

text \<open>
  A world left by an earlier, partial download into directory \<open>d\<close>: the first image of
  episode 1 and the text of episode 2 are there, with other content.
\<close>

definition ex_partial :: world where
  "ex_partial =
     \<lparr>files = [[''d''] \<mapsto> Dir,
               [''d'', ''1 - 1 - One.png''] \<mapsto> File (Binary [9]),
               [''d'', ''2 - Two.txt''] \<mapsto> File (Text ''old'')],
      requests = []\<rparr>"

section \<open>Properties of the helpers\<close>

lemma evil_chars_cases:
  "evil_chars True False = [CHR ''/'']"
  "evil_chars True True = CHR ''/'' # fat_chars"
  by (simp_all add: evil_chars_def)

lemma check_path_append:
  "check_path (a @ b) slash fat = check_path a slash fat @ check_path b slash fat"
  by (simp add: check_path_def)

lemma check_path_idem:
  "check_path (check_path p slash fat) slash fat = check_path p slash fat"
  by (simp add: check_path_def)

text \<open>
  Claim C7: the sanitizer (called with the default \<open>slash=True\<close>, as everywhere in the
  program) removes \<open>/\<close> always, removes the nine characters \<open>? < > \ : * | " ^\<close> as well
  exactly when the restrict-characters option is set, keeps every other character in
  place, and sanitizing a sanitized string changes nothing.
\<close>

theorem check_path_sanitizes:
  "check_path p True False = filter (\<lambda>c. c \<noteq> CHR ''/'') p \<and>
   check_path p True True =
     filter (\<lambda>c. c \<notin> {CHR ''/'', CHR ''?'', CHR ''<'', CHR ''>'', CHR 0x5C, CHR '':'', CHR ''*'',
                        CHR ''|'', CHR 0x22, CHR ''^''}) p \<and>
   check_path (check_path p True fat) True fat = check_path p True fat"
  by (simp add: check_path_def evil_chars_def fat_chars_def)

lemma digit_char_val: "d < 10 \<Longrightarrow> of_char (digit_char d) = (48::nat) + d"
proof -
  assume "d < 10"
  then have "d \<in> {0,1,2,3,4,5,6,7,8,9}" by auto
  then show ?thesis by (auto simp: digit_char_def)
qed

lemma digit_char_in: "d < 10 \<Longrightarrow> digit_char d \<in> set ''0123456789''"
  unfolding digit_char_def by (rule nth_mem) simp

lemma str_nat_digits: "set (str_nat n) \<subseteq> set ''0123456789''"
proof (induction n rule: str_nat.induct)
  case (1 n)
  show ?case
  proof (cases "n < 10")
    case True
    then show ?thesis using digit_char_in[of n] by (subst str_nat.simps) simp
  next
    case False
    have "n mod 10 < 10" by simp
    from digit_char_in[OF this] 1[OF False] False show ?thesis
      by (subst str_nat.simps) simp
  qed
qed

lemma str_nat_nonempty: "str_nat n \<noteq> []"
  by (subst str_nat.simps) simp

lemma length_str_nat_pos: "0 < length (str_nat n)"
  using str_nat_nonempty by simp

lemma str_nat_upper: "n < 10 ^ length (str_nat n)"
proof (induction n rule: str_nat.induct)
  case (1 n)
  show ?case
  proof (cases "n < 10")
    case True
    then show ?thesis by (subst str_nat.simps) simp
  next
    case False
    have "n div 10 < 10 ^ length (str_nat (n div 10))" using 1[OF False] .
    then have "n < 10 * 10 ^ length (str_nat (n div 10))" by (simp add: div_less_iff_less_mult mult.commute)
    with False show ?thesis by (subst str_nat.simps) simp
  qed
qed

lemma str_nat_lower: "0 < n \<Longrightarrow> 10 ^ (length (str_nat n) - 1) \<le> n"
proof (induction n rule: str_nat.induct)
  case (1 n)
  show ?case
  proof (cases "n < 10")
    case True
    with 1(2) show ?thesis by (subst str_nat.simps) simp
  next
    case False
    then have "0 < n div 10" by (simp add: div_greater_zero_iff)
    from 1(1)[OF False this] have "10 ^ (length (str_nat (n div 10)) - 1) \<le> n div 10" .
    then have "10 * 10 ^ (length (str_nat (n div 10)) - 1) \<le> n" by simp
    moreover have "length (str_nat n) - 1 = Suc (length (str_nat (n div 10)) - 1)"
      using False length_str_nat_pos[of "n div 10"] by (subst str_nat.simps) simp
    ultimately show ?thesis by simp
  qed
qed

lemma length_str_nat_mono: "i \<le> n \<Longrightarrow> length (str_nat i) \<le> length (str_nat n)"
proof (rule ccontr)
  assume le: "i \<le> n" and "\<not> length (str_nat i) \<le> length (str_nat n)"
  then have lt: "length (str_nat n) \<le> length (str_nat i) - 1" by simp
  then have "0 < i" using length_str_nat_pos[of n]
    by (cases "i = 0") (simp_all add: str_nat.simps[of 0])
  have "n < 10 ^ length (str_nat n)" by (rule str_nat_upper)
  also have "\<dots> \<le> (10::nat) ^ (length (str_nat i) - 1)" using lt by (simp add: power_increasing)
  also have "\<dots> \<le> i" using \<open>0 < i\<close> by (rule str_nat_lower)
  finally show False using le by simp
qed

lemma decimal_value_snoc: "decimal_value (s @ [c]) = 10 * decimal_value s + (of_char c - 48)"
  by (simp add: decimal_value_def)

lemma decimal_value_str_nat: "decimal_value (str_nat n) = n"
proof (induction n rule: str_nat.induct)
  case (1 n)
  show ?case
  proof (cases "n < 10")
    case True
    then show ?thesis using digit_char_val[of n]
      by (subst str_nat.simps) (simp add: decimal_value_def)
  next
    case False
    have "n mod 10 < 10" by simp
    from digit_char_val[OF this] 1[OF False] False show ?thesis
      by (subst str_nat.simps) (simp add: decimal_value_snoc)
  qed
qed

lemma decimal_value_zeros: "decimal_value (replicate k CHR ''0'' @ s) = decimal_value s"
proof -
  have "foldl (\<lambda>a c. 10 * a + (of_char c - 48)) 0 (replicate k CHR ''0'') = (0::nat)"
    by (induction k) simp_all
  then show ?thesis by (simp add: decimal_value_def)
qed

lemma lead0_nonneg:
  assumes "0 \<le> i"
  shows "lead0 i n = replicate (length (str_int n) - length (str_nat (nat i))) CHR ''0'' @ str_nat (nat i)"
proof -
  have s: "str_int i = str_nat (nat i)" using assms by (simp add: str_int_def)
  have d: "set (str_nat (nat i)) \<subseteq> set ''0123456789''" by (rule str_nat_digits)
  obtain c cs where cs: "str_nat (nat i) = c # cs" using str_nat_nonempty[of "nat i"] by (cases "str_nat (nat i)") auto
  with d have "c \<noteq> CHR ''+''" "c \<noteq> CHR ''-''" by auto
  then show ?thesis unfolding lead0_def zfill_def s cs by auto
qed

text \<open>
  Claim C8: for a collection of \<open>n\<close> items and a 1-based index \<open>i \<le> n\<close>, the label
  \<open>lead0 i n\<close> is the decimal representation of \<open>i\<close> (digits only, reading back as \<open>i\<close>)
  with zeros on the left, and its length is the number of decimal digits of \<open>n\<close>, that
  is the \<open>k\<close> with \<open>10 ^ (k - 1) \<le> n < 10 ^ k\<close>; for \<open>n = 125\<close> and \<open>i = 7\<close> it is \<open>007\<close>.
\<close>

theorem lead0_zero_padded:
  assumes "1 \<le> i" and "i \<le> n"
  shows "lead0 i n = replicate (length (str_int n) - length (str_int i)) CHR ''0'' @ str_int i \<and>
         length (lead0 i n) = length (str_int n) \<and>
         decimal_value (str_int i) = nat i \<and>
         set (str_int i) \<subseteq> set ''0123456789'' \<and>
         10 ^ (length (str_int n) - 1) \<le> n \<and> n < 10 ^ length (str_int n) \<and>
         lead0 7 125 = ''007''"
proof -
  have i: "str_int i = str_nat (nat i)" and n: "str_int n = str_nat (nat n)"
    using assms by (simp_all add: str_int_def)
  have len: "length (str_int i) \<le> length (str_int n)"
    unfolding i n using assms by (intro length_str_nat_mono) simp
  have pad: "lead0 i n = replicate (length (str_int n) - length (str_int i)) CHR ''0'' @ str_int i"
    using lead0_nonneg[of i n] assms by (simp add: i)
  have "0 < nat n" using assms by simp
  from str_nat_lower[OF this] have "int (10 ^ (length (str_nat (nat n)) - 1)) \<le> int (nat n)"
    by (simp only: of_nat_le_iff)
  then have lo: "10 ^ (length (str_int n) - 1) \<le> n"
    unfolding n using assms by simp
  have "nat n < 10 ^ length (str_nat (nat n))" by (rule str_nat_upper)
  then have "int (nat n) < int (10 ^ length (str_nat (nat n)))"
    by (simp only: of_nat_less_iff)
  then have hi: "n < 10 ^ length (str_int n)"
    unfolding n using assms by simp
  have ex: "lead0 7 125 = ''007''" by code_simp
  show ?thesis using pad len lo hi ex str_nat_digits[of "nat i"]
    by (simp add: i decimal_value_str_nat)
qed

theorem check_path_sanitizes_witness:
  "check_path ''a/b?c:d'' True False = ''ab?c:d'' \<and> check_path ''a/b?c:d'' True True = ''abcd'' \<and>
   check_path (check_path ''a/b?c:d'' True True) True True = check_path ''a/b?c:d'' True True"
  using check_path_sanitizes [of "''a/b?c:d''" True]
  by (simp add: check_path_def evil_chars_def fat_chars_def)

theorem lead0_zero_padded_witness:
  "(1::int) \<le> 42 \<and> (42::int) \<le> 1000 \<and> lead0 42 1000 = ''0042'' \<and> length (lead0 42 1000) = 4"
proof -
  have a: "(1::int) \<le> 42" and b: "(42::int) \<le> 1000" by simp_all
  have s1: "str_int 1000 = ''1000''" by code_simp
  have s2: "str_int 42 = ''42''" by code_simp
  from lead0_zero_padded[OF a b] show ?thesis by (simp add: s1 s2)
qed

section \<open>The series resolver: properties\<close>

lemma split_aux_nonempty: "split_aux sep cur s \<noteq> []"
  by (induction sep cur s rule: split_aux.induct) auto

lemma str_split_nonempty: "str_split s sep \<noteq> []"
  by (simp add: str_split_def split_aux_nonempty)

lemma prefix_before_occurrence:
  assumes "prefix sep (p # ps @ sep @ tail)"
  shows "sublist sep ((p # ps) @ butlast sep)"
proof (cases "sep = []")
  case True
  then show ?thesis by simp
next
  case False
  have "length sep \<le> length ((p # ps) @ butlast sep)" using False by simp
  moreover have "prefix ((p # ps) @ butlast sep) (p # ps @ sep @ tail)"
    by (simp add: prefix_def) (metis append_butlast_last_id False append_assoc)
  ultimately have "prefix sep ((p # ps) @ butlast sep)"
    using assms by (metis prefix_length_prefix)
  then show ?thesis by (rule prefix_imp_sublist)
qed

lemma split_aux_first_occurrence:
  assumes "sep \<noteq> []" and "\<not> sublist sep (pre @ butlast sep)"
  shows "split_aux sep cur (pre @ sep @ tail) = (cur @ pre) # split_aux sep [] tail"
  using assms(2)
proof (induction pre arbitrary: cur)
  case Nil
  obtain c cs where sep: "sep = c # cs" using assms(1) by (cases sep) auto
  have "split_aux sep cur (sep @ tail) = cur # split_aux sep [] (drop (length sep) (sep @ tail))"
    unfolding sep by simp
  then show ?case by simp
next
  case (Cons p ps)
  have np: "\<not> prefix sep (p # ps @ sep @ tail)"
    using prefix_before_occurrence[of sep p ps tail] Cons.prems by blast
  have "\<not> sublist sep (ps @ butlast sep)"
    using Cons.prems by (auto simp: sublist_Cons_right)
  from Cons.IH[OF this, of "cur @ [p]"] np show ?case by simp
qed

lemma split_aux_char_hd:
  "hd (split_aux [c] cur s) = cur @ takeWhile (\<lambda>x. x \<noteq> c) s"
  by (induction s arbitrary: cur) auto

lemma getitem_hd: "xs \<noteq> [] \<Longrightarrow> getitem xs 0 = Inr (hd xs)"
  by (cases xs) (simp_all add: getitem_def)

lemma getitem_second: "getitem (x # y # ys) 1 = Inr y"
  by (simp add: getitem_def)

lemma hd_split_aux:
  assumes "sep \<noteq> []"
  shows "\<exists>y. hd (split_aux sep cur s) = cur @ y \<and> (s = y \<or> (\<exists>r. s = y @ sep @ r))"
proof (induction sep cur s rule: split_aux.induct)
  case (1 sep cur)
  then show ?case by simp
next
  case (2 sep cur c cs)
  show ?case
  proof (cases "sep \<noteq> [] \<and> prefix sep (c # cs)")
    case True
    then obtain r where "c # cs = [] @ sep @ r" by (auto simp: prefix_def)
    moreover have "hd (split_aux sep cur (c # cs)) = cur @ []" using True by simp
    ultimately show ?thesis by blast
  next
    case False
    from 2(2)[OF False] obtain y where
      y: "hd (split_aux sep (cur @ [c]) cs) = (cur @ [c]) @ y" "cs = y \<or> (\<exists>r. cs = y @ sep @ r)"
      by blast
    have "hd (split_aux sep cur (c # cs)) = cur @ (c # y)" using False y(1) by simp
    moreover have "c # cs = c # y \<or> (\<exists>r. c # cs = (c # y) @ sep @ r)" using y(2) by auto
    ultimately show ?thesis by blast
  qed
qed

lemma takeWhile_stop: "\<not> P x \<Longrightarrow> takeWhile P (y @ x # r) = takeWhile P y"
  by (induction y) auto

lemma get_series_id_url:
  assumes "prefix ''http'' (pre @ ''/series/'' @ tail)"
    and "\<not> sublist ''/series/'' (pre @ ''/series'')"
  shows "get_series_id (pre @ ''/series/'' @ tail) = Inr (takeWhile (\<lambda>c. c \<noteq> CHR ''/'') tail)"
proof -
  have ne: "''/series/'' \<noteq> []" by simp
  have "\<not> sublist ''/series/'' (pre @ butlast ''/series/'')" using assms(2) by simp
  from split_aux_first_occurrence[OF ne this, of "[]" tail]
  have first: "split_aux ''/series/'' [] (pre @ ''/series/'' @ tail) = pre # split_aux ''/series/'' [] tail"
    by simp
  obtain y ys where yys: "split_aux ''/series/'' [] tail = y # ys"
    using split_aux_nonempty[of "''/series/''" "[]" tail] by (cases "split_aux ''/series/'' [] tail") auto
  from hd_split_aux[OF ne, of "[]" tail] yys
  have y: "tail = y \<or> (\<exists>r. tail = y @ ''/series/'' @ r)" by auto
  have tw: "takeWhile (\<lambda>c. c \<noteq> CHR ''/'') tail = takeWhile (\<lambda>c. c \<noteq> CHR ''/'') y"
  proof -
    { fix r assume "tail = y @ ''/series/'' @ r"
      then have "tail = y @ CHR ''/'' # (''series/'' @ r)" by simp
      then have ?thesis using takeWhile_stop[of "\<lambda>c. c \<noteq> CHR ''/''" "CHR ''/''" y] by simp }
    with y show ?thesis by blast
  qed
  have second: "getitem (str_split (pre @ ''/series/'' @ tail) ''/series/'') 1 = Inr y"
    unfolding str_split_def first yys by (rule getitem_second)
  have "getitem (str_split y ''/'') 0 = Inr (hd (str_split y ''/''))"
    by (rule getitem_hd) (rule str_split_nonempty)
  also have "hd (str_split y ''/'') = takeWhile (\<lambda>c. c \<noteq> CHR ''/'') y"
    unfolding str_split_def using split_aux_char_hd[of "CHR ''/''" "[]" y] by simp
  finally have third: "getitem (str_split y ''/'') 0 = Inr (takeWhile (\<lambda>c. c \<noteq> CHR ''/'') tail)"
    by (simp add: tw)
  show ?thesis
    unfolding get_series_id_def using assms(1) second third by simp
qed

lemma get_series_id_name: "\<not> prefix ''http'' s \<Longrightarrow> get_series_id s = Inr s"
  by (simp add: get_series_id_def)

text \<open>
  Claim C3, as the code has it: the resolver looks at the start of the input, not for
  \<open>/series/\<close> in it. For an input that starts with \<open>http\<close> and contains \<open>/series/\<close>, it
  returns what follows the first \<open>/series/\<close> up to the next \<open>/\<close>; an input that does not
  start with \<open>http\<close> is returned unchanged. The two examples of the specification hold.
\<close>

theorem get_series_id_resolves:
  "(prefix ''http'' (pre @ ''/series/'' @ tail) \<and> \<not> sublist ''/series/'' (pre @ ''/series'')
      \<longrightarrow> get_series_id (pre @ ''/series/'' @ tail) = Inr (takeWhile (\<lambda>c. c \<noteq> CHR ''/'') tail)) \<and>
   (\<not> prefix ''http'' s \<longrightarrow> get_series_id s = Inr s) \<and>
   get_series_id ''https://tapas.io/series/Erma/info'' = Inr ''Erma'' \<and>
   get_series_id ''Erma'' = Inr ''Erma''"
proof -
  have e1: "get_series_id ''https://tapas.io/series/Erma/info'' = Inr ''Erma''"
    by (simp add: get_series_id_def str_split_def getitem_def)
  have e2: "get_series_id ''Erma'' = Inr ''Erma''"
    by (simp add: get_series_id_def)
  show ?thesis using get_series_id_url[of pre tail] get_series_id_name[of s] e1 e2 by blast
qed

theorem get_series_id_resolves_witness:
  "prefix ''http'' (''http://tapas.io'' @ ''/series/'' @ ''12345/ep/1'') \<and>
   \<not> sublist ''/series/'' (''http://tapas.io'' @ ''/series'') \<and>
   get_series_id ''http://tapas.io/series/12345/ep/1'' = Inr ''12345'' \<and>
   \<not> prefix ''http'' ''12345'' \<and> get_series_id ''12345'' = Inr ''12345''"
  using get_series_id_resolves [of "''http://tapas.io''" "''12345/ep/1''" "''12345''"]
  by (simp add: sublist_Cons_right)

text \<open>
  The claim as written fails: an input without the \<open>http\<close> prefix is returned unchanged
  although it contains \<open>/series/\<close>, and a string that starts with \<open>http\<close> and has no
  \<open>/series/\<close> raises IndexError.
\<close>

theorem get_series_id_counterexample:
  "sublist ''/series/'' ''tapas.io/series/Erma'' \<and>
   get_series_id ''tapas.io/series/Erma'' = Inr ''tapas.io/series/Erma'' \<and>
   get_series_id ''tapas.io/series/Erma'' \<noteq> Inr ''Erma'' \<and>
   get_series_id ''https://tapas.io/Erma'' = Inl IndexError"
  by (simp add: get_series_id_def str_split_def getitem_def sublist_Cons_right)

section \<open>File names: properties\<close>

lemma str_int_chars: "set (str_int i) \<subseteq> set ''-0123456789''"
proof (cases "i < 0")
  case True
  have "set (str_nat (nat (- i))) \<subseteq> set ''0123456789''" by (rule str_nat_digits)
  also have "\<dots> \<subseteq> set ''-0123456789''" by (simp add: subset_insertI)
  finally show ?thesis using True by (simp add: str_int_def subset_insertI2)
next
  case False
  have "set (str_nat (nat i)) \<subseteq> set ''0123456789''" by (rule str_nat_digits)
  also have "\<dots> \<subseteq> set ''-0123456789''" by (simp add: subset_insertI)
  finally show ?thesis using False by (simp add: str_int_def)
qed

lemma zfill_chars: "set (zfill s w) \<subseteq> insert CHR ''0'' (set s)"
  by (auto simp: zfill_def split: list.splits)

lemma lead0_chars: "set (lead0 i n) \<subseteq> set ''-0123456789''"
proof -
  have z: "CHR ''0'' \<in> set ''-0123456789''" by simp
  have "set (lead0 i n) \<subseteq> insert CHR ''0'' (set (str_int i))"
    unfolding lead0_def by (rule zfill_chars)
  also have "\<dots> \<subseteq> insert CHR ''0'' (set ''-0123456789'')"
    by (rule insert_mono) (rule str_int_chars)
  also have "\<dots> = set ''-0123456789''" using z by (rule insert_absorb)
  finally show ?thesis .
qed

lemma check_path_keeps:
  assumes "set s \<inter> set (evil_chars slash fat) = {}"
  shows "check_path s slash fat = s"
  unfolding check_path_def using assms by (intro filter_True) auto

lemma check_path_lead0: "check_path (lead0 i n) True fat = lead0 i n"
proof (rule check_path_keeps)
  have "set ''-0123456789'' \<inter> set (evil_chars True fat) = {}"
    by (cases fat) (simp_all add: evil_chars_def fat_chars_def)
  with lead0_chars[of i n] show "set (lead0 i n) \<inter> set (evil_chars True fat) = {}" by blast
qed

lemma check_path_separators:
  "check_path '' - '' True fat = '' - ''"
  "check_path ''.'' True fat = ''.''"
  "check_path ''.txt'' True fat = ''.txt''"
  by (simp_all add: check_path_def evil_chars_def fat_chars_def)

lemma lead0_width:
  assumes "1 \<le> i" and "i \<le> n"
  shows "length (lead0 i n) = length (str_int n)"
proof -
  have i: "str_int i = str_nat (nat i)" and n: "str_int n = str_nat (nat n)"
    using assms by (simp_all add: str_int_def)
  have "length (str_nat (nat i)) \<le> length (str_nat (nat n))"
    using assms by (intro length_str_nat_mono) simp
  then show ?thesis using lead0_nonneg[of i n] assms by (simp add: n)
qed

lemma last_split_aux_char:
  "last (split_aux [c] cur s) =
     (if c \<in> set s then rev (takeWhile (\<lambda>x. x \<noteq> c) (rev s)) else cur @ s)"
proof (induction s arbitrary: cur)
  case Nil
  then show ?case by simp
next
  case (Cons x xs)
  show ?case
  proof (cases "x = c")
    case True
    then show ?thesis using Cons.IH[of "[]"] split_aux_nonempty[of "[c]" "[]" xs]
      by (auto simp: takeWhile_append)
  next
    case False
    then show ?thesis using Cons.IH[of "cur @ [x]"]
      by (auto simp: takeWhile_append)
  qed
qed

lemma last_split_ext:
  assumes "CHR ''.'' \<notin> set ext"
  shows "last (str_split (a @ ''.'' @ ext) ''.'') = ext"
proof -
  have "takeWhile (\<lambda>x. x \<noteq> CHR ''.'') (rev ext @ CHR ''.'' # rev a) = rev ext"
    using assms by (simp add: takeWhile_append)
  then show ?thesis
    unfolding str_split_def by (simp add: last_split_aux_char)
qed

text \<open>
  The shape of a file name: the components are joined by
  \<open>space hyphen space\<close>, not by a bare hyphen. An image file is named
  \<open><episodeIndex> - <imageIndex> - <title>.<ext>\<close> and a prose file
  \<open><episodeIndex> - <title>.txt\<close>, where the title and the extension have gone through
  the sanitizer, the extension is what follows the last \<open>.\<close> of the image URL, and an
  index \<open>i\<close> of a collection of \<open>n\<close> items is padded to the number of digits of \<open>n\<close>.
\<close>

lemma fname_shapes:
  "image_fname opts e n i m title url =
     lead0 e n @ '' - '' @ lead0 i m @ '' - '' @ check_path title True (opt_restrict opts) @ ''.''
       @ check_path (last (str_split url ''.'')) True (opt_restrict opts) \<and>
   prose_fname opts e n title =
     lead0 e n @ '' - '' @ check_path title True (opt_restrict opts) @ ''.txt'' \<and>
   (CHR ''.'' \<notin> set ext \<longrightarrow> last (str_split (a @ ''.'' @ ext) ''.'') = ext) \<and>
   (1 \<le> e \<and> e \<le> n \<longrightarrow> length (lead0 e n) = length (str_int n)) \<and>
   (1 \<le> i \<and> i \<le> m \<longrightarrow> length (lead0 i m) = length (str_int m))"
proof -
  have img: "image_fname opts e n i m title url =
     lead0 e n @ '' - '' @ lead0 i m @ '' - '' @ check_path title True (opt_restrict opts) @ ''.''
       @ check_path (last (str_split url ''.'')) True (opt_restrict opts)"
    unfolding image_fname_def
    by (simp only: check_path_append check_path_lead0 check_path_separators)
  have prose: "prose_fname opts e n title =
     lead0 e n @ '' - '' @ check_path title True (opt_restrict opts) @ ''.txt''"
    unfolding prose_fname_def
    by (simp only: check_path_append check_path_lead0 check_path_separators)
  show ?thesis
    using img prose last_split_ext[of ext a] lead0_width[of e n] lead0_width[of i m] by blast
qed

lemma fname_shapes_example:
  "image_fname \<lparr>opt_force = False, opt_restrict = True, opt_base = []\<rparr> 3 12 2 5 ''Who/What?''
     ''https://cdn.example/p/a.b.jpg'' = ''03 - 2 - WhoWhat.jpg'' \<and>
   prose_fname \<lparr>opt_force = False, opt_restrict = True, opt_base = []\<rparr> 3 12 ''Who/What?'' =
     ''03 - WhoWhat.txt'' \<and>
   CHR ''.'' \<notin> set ''jpg'' \<and> last (str_split (''https://cdn.example/p/a.b'' @ ''.'' @ ''jpg'') ''.'') = ''jpg'' \<and>
   (1::int) \<le> 3 \<and> (3::int) \<le> 12 \<and> length (lead0 3 12) = 2 \<and>
   (1::int) \<le> 2 \<and> (2::int) \<le> 5 \<and> length (lead0 2 5) = 1"
proof -
  have l1: "lead0 3 12 = ''03''" by code_simp
  have l2: "lead0 2 5 = ''2''" by code_simp
  have s1: "str_int 12 = ''12''" by code_simp
  have s2: "str_int 5 = ''5''" by code_simp
  have sp: "str_split ''https://cdn.example/p/a.b.jpg'' ''.'' = [''https://cdn'', ''example/p/a'', ''b'', ''jpg'']"
    by (simp add: str_split_def)
  show ?thesis
    using fname_shapes [of "\<lparr>opt_force = False, opt_restrict = True, opt_base = []\<rparr>" 3 12 2 5
        "''Who/What?''" "''https://cdn.example/p/a.b.jpg''" "''jpg''" "''https://cdn.example/p/a.b''"]
    by (simp add: l1 l2 s1 s2 sp check_path_def evil_chars_def fat_chars_def)
qed

text \<open>
  File names with a bare hyphen between the components, as \<open>1-1-T.png\<close> and \<open>2-T.txt\<close>,
  are not what the code produces: for the first image of episode 1 it produces
  \<open>1 - 1 - T.png\<close>, and for the prose episode 2 \<open>2 - T.txt\<close>.
\<close>

theorem fname_counterexample:
  "image_fname \<lparr>opt_force = False, opt_restrict = False, opt_base = []\<rparr> 1 3 1 2 ''T''
     ''https://cdn.example/a.png'' = ''1 - 1 - T.png'' \<and>
   image_fname \<lparr>opt_force = False, opt_restrict = False, opt_base = []\<rparr> 1 3 1 2 ''T''
     ''https://cdn.example/a.png'' \<noteq> ''1-1-T.png'' \<and>
   prose_fname \<lparr>opt_force = False, opt_restrict = False, opt_base = []\<rparr> 2 3 ''T'' = ''2 - T.txt'' \<and>
   prose_fname \<lparr>opt_force = False, opt_restrict = False, opt_base = []\<rparr> 2 3 ''T'' \<noteq> ''2-T.txt''"
proof -
  have l: "lead0 1 3 = ''1''" "lead0 1 2 = ''1''" "lead0 2 3 = ''2''" by code_simp+
  show ?thesis
    by (simp add: image_fname_def prose_fname_def l str_split_def check_path_def evil_chars_def)
qed

section \<open>The image loop: invariants\<close>

lemma world_of_simps [simp]:
  "world_of (Finished w) = w" "world_of (Aborted e w) = w"
  by (simp_all add: world_of_def)

lemma novel_text_loop_filter:
  "novel_text_loop xs paras = paras @ filter (\<lambda>txt. txt \<noteq> []) xs"
  by (induction xs arbitrary: paras) auto

lemma parse_novel_text_filter:
  "parse_novel_text html = join [CHR 0x0A, CHR 0x0A] (filter (\<lambda>txt. txt \<noteq> []) (body_paras html))"
  by (simp add: parse_novel_text_def novel_text_loop_filter)

lemma comic_images_loop_acc:
  "comic_images_loop els imgs = imgs @ comic_images_loop els []"
proof (induction els arbitrary: imgs)
  case Nil
  then show ?case by simp
next
  case (Cons img rest)
  show ?case
  proof (cases "py_or (attr img ''src'') (attr img ''data-src'')")
    case None
    then show ?thesis using Cons.IH[of imgs] by simp
  next
    case (Some src)
    show ?thesis
    proof (cases src)
      case Nil
      with Some show ?thesis using Cons.IH[of imgs] by simp
    next
      case (Cons c cs)
      with Some show ?thesis
        using Cons.IH[of "imgs @ [hd (str_split (c # cs) ''?'')]"]
          Cons.IH[of "[hd (str_split (c # cs) ''?'')]"]
        by simp
    qed
  qed
qed

lemma comic_images_loop_empty:
  "comic_images_loop els [] = [] \<longleftrightarrow>
     (\<forall>img \<in> set els. \<not> truthy (py_or (attr img ''src'') (attr img ''data-src'')))"
proof (induction els)
  case Nil
  then show ?case by simp
next
  case (Cons img rest)
  show ?case
  proof (cases "py_or (attr img ''src'') (attr img ''data-src'')")
    case None
    then show ?thesis using Cons.IH by (simp add: truthy_def)
  next
    case (Some src)
    show ?thesis
    proof (cases src)
      case Nil
      with Some show ?thesis using Cons.IH by (simp add: truthy_def)
    next
      case (Cons c cs)
      with Some show ?thesis
        using comic_images_loop_acc[of rest "[hd (str_split (c # cs) ''?'')]"]
        by (simp add: truthy_def)
    qed
  qed
qed

lemma save_image_exists:
  "path_exists w (savePath @ [image_fname opts ep_idx n_eps img_idx n_imgs title img_url]) \<Longrightarrow>
   save_image E opts savePath ep_idx n_eps title img_idx n_imgs img_url w = Finished w"
  by (simp add: save_image_def)

lemma save_image_missing:
  "\<not> path_exists w (savePath @ [image_fname opts ep_idx n_eps img_idx n_imgs title img_url]) \<Longrightarrow>
   image_reply E img_url = Some imgdata \<Longrightarrow>
   save_image E opts savePath ep_idx n_eps title img_idx n_imgs img_url w =
     Finished (write_file (savePath @ [image_fname opts ep_idx n_eps img_idx n_imgs title img_url])
                 (Binary imgdata) (log_request (ImageGet img_url) w))"
  by (simp add: save_image_def)

lemma files_log_request [simp]: "files (log_request r w) = files w"
  by (simp add: log_request_def)

lemma requests_log_request [simp]: "requests (log_request r w) = requests w @ [r]"
  by (simp add: log_request_def)

lemma path_exists_log_request [simp]: "path_exists (log_request r w) p = path_exists w p"
  by (simp add: path_exists_def)

lemma files_write_file [simp]: "files (write_file p d w) = (files w)(p \<mapsto> File d)"
  by (simp add: write_file_def)

lemma requests_write_file [simp]: "requests (write_file p d w) = requests w"
  by (simp add: write_file_def)

text \<open>A path that exists keeps its content through the image loop.\<close>

lemma save_image_keeps:
  "path_exists w p \<Longrightarrow>
   files (world_of (save_image E opts savePath ep_idx n_eps title img_idx n_imgs img_url w)) p = files w p"
  by (auto simp: save_image_def Let_def path_exists_def split: option.splits)

lemma save_images_keeps:
  "path_exists w p \<Longrightarrow>
   files (world_of (save_images E opts savePath ep_idx n_eps title n_imgs img_idx imgs w)) p = files w p"
proof (induction imgs arbitrary: img_idx w)
  case Nil
  then show ?case by simp
next
  case (Cons img_url rest)
  let ?step = "save_image E opts savePath ep_idx n_eps title img_idx n_imgs img_url w"
  have k: "files (world_of ?step) p = files w p" using Cons.prems by (rule save_image_keeps)
  show ?case
  proof (cases ?step)
    case (Finished w')
    with k have "files w' p = files w p" by simp
    moreover from this Cons.prems have "path_exists w' p" by (simp add: path_exists_def)
    ultimately show ?thesis using Cons.IH[of w' "img_idx + 1"] Finished by simp
  next
    case (Aborted e w')
    with k show ?thesis by simp
  qed
qed

text \<open>The image loop writes binary files only.\<close>

lemma save_image_binary:
  "files (world_of (save_image E opts savePath ep_idx n_eps title img_idx n_imgs img_url w)) p = files w p \<or>
   (\<exists>b. files (world_of (save_image E opts savePath ep_idx n_eps title img_idx n_imgs img_url w)) p
         = Some (File (Binary b)))"
  by (auto simp: save_image_def Let_def split: option.splits)

lemma save_images_binary:
  "files (world_of (save_images E opts savePath ep_idx n_eps title n_imgs img_idx imgs w)) p = files w p \<or>
   (\<exists>b. files (world_of (save_images E opts savePath ep_idx n_eps title n_imgs img_idx imgs w)) p
         = Some (File (Binary b)))"
proof (induction imgs arbitrary: img_idx w)
  case Nil
  then show ?case by simp
next
  case (Cons img_url rest)
  let ?step = "save_image E opts savePath ep_idx n_eps title img_idx n_imgs img_url w"
  note s = save_image_binary[of E opts savePath ep_idx n_eps title img_idx n_imgs img_url w p]
  show ?case
  proof (cases ?step)
    case (Finished w')
    show ?thesis
    proof (cases "path_exists w' p")
      case True
      then have "files (world_of (save_images E opts savePath ep_idx n_eps title n_imgs (img_idx + 1) rest w')) p
          = files w' p" by (rule save_images_keeps)
      with s Finished show ?thesis by simp
    next
      case False
      then have "files w' p = None" by (simp add: path_exists_def)
      with s Finished have "files w p = None" by auto
      with Cons.IH[of "img_idx + 1" w'] Finished \<open>files w' p = None\<close> show ?thesis by simp
    qed
  next
    case (Aborted e w')
    with s show ?thesis by simp
  qed
qed

section \<open>Episodes: classification and persistence\<close>

lemma save_image_env:
  "image_reply E' = image_reply E \<Longrightarrow>
   save_image E' opts savePath ep_idx n_eps title img_idx n_imgs img_url w =
   save_image E opts savePath ep_idx n_eps title img_idx n_imgs img_url w"
  by (simp add: save_image_def Let_def cong: if_cong)

lemma save_images_env:
  assumes "image_reply E' = image_reply E"
  shows "save_images E' opts savePath ep_idx n_eps title n_imgs img_idx imgs w =
         save_images E opts savePath ep_idx n_eps title n_imgs img_idx imgs w"
proof (induction imgs arbitrary: img_idx w)
  case Nil
  show ?case by simp
next
  case (Cons img_url rest)
  show ?case
    by (simp add: save_image_env[OF assms] Cons.IH cong: outcome.case_cong)
qed

lemma save_episode_gallery:
  assumes "episode_reply E (ep_id ep) = Some html" and "parse_comic_images html \<noteq> []"
  shows "save_episode E opts savePath n_eps ep_idx ep w =
     save_images E opts savePath ep_idx n_eps (ep_title ep) (int (length (parse_comic_images html))) 1
       (parse_comic_images html) (log_request (EpisodeGet (ep_id ep)) w)"
  using assms by (simp add: save_episode_def Let_def)

lemma save_episode_prose:
  assumes "episode_reply E (ep_id ep) = Some html" and "parse_comic_images html = []"
  shows "save_episode E opts savePath n_eps ep_idx ep w =
     Finished (write_file (savePath @ [prose_fname opts ep_idx n_eps (ep_title ep)])
                 (Text (parse_novel_text html)) (log_request (EpisodeGet (ep_id ep)) w))"
  using assms by (simp add: save_episode_def Let_def)

lemma parse_comic_images_nonempty:
  "parse_comic_images html \<noteq> [] \<longleftrightarrow>
     (\<exists>img \<in> set (content_imgs html). truthy (py_or (attr img ''src'') (attr img ''data-src'')))"
  by (simp add: parse_comic_images_def comic_images_loop_empty)

text \<open>
  Claim C4: an episode page is an image gallery exactly when at least one matched image
  element has a non-empty \<open>src\<close> or \<open>data-src\<close>. Then the episode is saved by the image
  loop alone: every file it touches holds image bytes, and the outcome is the same
  whatever the paragraphs of the page are (the text is discarded). Only when no image is
  found is the page prose: one text file is written and the episode ends without error;
  for a page without images and without paragraphs the text written is empty.
\<close>

theorem classification_image_first:
  assumes "episode_reply E (ep_id ep) = Some html"
  shows
    "(parse_comic_images html \<noteq> [] \<longleftrightarrow>
        (\<exists>img \<in> set (content_imgs html). truthy (py_or (attr img ''src'') (attr img ''data-src'')))) \<and>
     (parse_comic_images html \<noteq> [] \<longrightarrow>
        save_episode E opts savePath n_eps ep_idx ep w =
          save_images E opts savePath ep_idx n_eps (ep_title ep)
            (int (length (parse_comic_images html))) 1 (parse_comic_images html)
            (log_request (EpisodeGet (ep_id ep)) w) \<and>
        (\<forall>p. files (world_of (save_episode E opts savePath n_eps ep_idx ep w)) p = files w p \<or>
             (\<exists>b. files (world_of (save_episode E opts savePath n_eps ep_idx ep w)) p
                   = Some (File (Binary b)))) \<and>
        (\<forall>ps. save_episode
                (E\<lparr>episode_reply := (episode_reply E)(ep_id ep := Some (html\<lparr>body_paras := ps\<rparr>))\<rparr>)
                opts savePath n_eps ep_idx ep w
              = save_episode E opts savePath n_eps ep_idx ep w)) \<and>
     (parse_comic_images html = [] \<longrightarrow>
        save_episode E opts savePath n_eps ep_idx ep w =
          Finished (write_file (savePath @ [prose_fname opts ep_idx n_eps (ep_title ep)])
                      (Text (parse_novel_text html)) (log_request (EpisodeGet (ep_id ep)) w))) \<and>
     (content_imgs html = [] \<and> body_paras html = [] \<longrightarrow>
        save_episode E opts savePath n_eps ep_idx ep w =
          Finished (write_file (savePath @ [prose_fname opts ep_idx n_eps (ep_title ep)])
                      (Text []) (log_request (EpisodeGet (ep_id ep)) w)))"
proof (intro conjI impI allI)
  show "parse_comic_images html \<noteq> [] \<longleftrightarrow>
        (\<exists>img \<in> set (content_imgs html). truthy (py_or (attr img ''src'') (attr img ''data-src'')))"
    by (rule parse_comic_images_nonempty)
next
  assume ne: "parse_comic_images html \<noteq> []"
  show g: "save_episode E opts savePath n_eps ep_idx ep w =
          save_images E opts savePath ep_idx n_eps (ep_title ep)
            (int (length (parse_comic_images html))) 1 (parse_comic_images html)
            (log_request (EpisodeGet (ep_id ep)) w)"
    using assms ne by (rule save_episode_gallery)
  fix p
  show "files (world_of (save_episode E opts savePath n_eps ep_idx ep w)) p = files w p \<or>
        (\<exists>b. files (world_of (save_episode E opts savePath n_eps ep_idx ep w)) p = Some (File (Binary b)))"
    unfolding g
    using save_images_binary[of E opts savePath ep_idx n_eps "ep_title ep"
        "int (length (parse_comic_images html))" 1 "parse_comic_images html"
        "log_request (EpisodeGet (ep_id ep)) w" p]
    by simp
next
  fix ps
  assume ne: "parse_comic_images html \<noteq> []"
  let ?E = "E\<lparr>episode_reply := (episode_reply E)(ep_id ep := Some (html\<lparr>body_paras := ps\<rparr>))\<rparr>"
  have same: "parse_comic_images (html\<lparr>body_paras := ps\<rparr>) = parse_comic_images html"
    by (simp add: parse_comic_images_def)
  have r: "episode_reply ?E (ep_id ep) = Some (html\<lparr>body_paras := ps\<rparr>)" by simp
  have i: "image_reply ?E = image_reply E" by simp
  have "save_episode ?E opts savePath n_eps ep_idx ep w =
      save_images ?E opts savePath ep_idx n_eps (ep_title ep) (int (length (parse_comic_images html))) 1
        (parse_comic_images html) (log_request (EpisodeGet (ep_id ep)) w)"
    using save_episode_gallery[OF r, of opts savePath n_eps ep_idx w] ne unfolding same by blast
  also have "\<dots> = save_images E opts savePath ep_idx n_eps (ep_title ep)
        (int (length (parse_comic_images html))) 1 (parse_comic_images html)
        (log_request (EpisodeGet (ep_id ep)) w)"
    using i by (rule save_images_env)
  also have "\<dots> = save_episode E opts savePath n_eps ep_idx ep w"
    using save_episode_gallery[OF assms ne] by simp
  finally show "save_episode ?E opts savePath n_eps ep_idx ep w
      = save_episode E opts savePath n_eps ep_idx ep w" .
next
  assume "parse_comic_images html = []"
  with assms show "save_episode E opts savePath n_eps ep_idx ep w =
          Finished (write_file (savePath @ [prose_fname opts ep_idx n_eps (ep_title ep)])
                      (Text (parse_novel_text html)) (log_request (EpisodeGet (ep_id ep)) w))"
    by (rule save_episode_prose)
next
  assume e: "content_imgs html = [] \<and> body_paras html = []"
  then have "parse_comic_images html = []" by (simp add: parse_comic_images_def)
  moreover have "parse_novel_text html = []" using e by (simp add: parse_novel_text_def)
  ultimately show "save_episode E opts savePath n_eps ep_idx ep w =
          Finished (write_file (savePath @ [prose_fname opts ep_idx n_eps (ep_title ep)])
                      (Text []) (log_request (EpisodeGet (ep_id ep)) w))"
    using save_episode_prose[OF assms, of opts savePath n_eps ep_idx w] by simp
qed

theorem classification_image_first_witness:
  "episode_reply ex_env (ep_id \<lparr>ep_id = 11, ep_title = ''One''\<rparr>) = Some ex_comic \<and>
   parse_comic_images ex_comic \<noteq> [] \<and>
   save_episode
     (ex_env\<lparr>episode_reply :=
        (episode_reply ex_env)(ep_id \<lparr>ep_id = 11, ep_title = ''One''\<rparr> := Some (ex_comic\<lparr>body_paras := []\<rparr>))\<rparr>)
     ex_opts [''d''] 3 1 \<lparr>ep_id = 11, ep_title = ''One''\<rparr> ex_world
   = save_episode ex_env ex_opts [''d''] 3 1 \<lparr>ep_id = 11, ep_title = ''One''\<rparr> ex_world \<and>
   episode_reply ex_env (ep_id \<lparr>ep_id = 12, ep_title = ''Two''\<rparr>) = Some ex_novel \<and>
   parse_comic_images ex_novel = [] \<and>
   save_episode ex_env ex_opts [''d''] 3 2 \<lparr>ep_id = 12, ep_title = ''Two''\<rparr> ex_world =
     Finished (write_file [''d'', ''2 - Two.txt''] (Text (''First.'' @ [CHR 0x0A, CHR 0x0A] @ ''Second.''))
                 (log_request (EpisodeGet 12) ex_world)) \<and>
   content_imgs \<lparr>content_imgs = [], body_paras = []\<rparr> = [] \<and>
   body_paras \<lparr>content_imgs = [], body_paras = []\<rparr> = [] \<and>
   save_episode (ex_env\<lparr>episode_reply := \<lambda>i. Some \<lparr>content_imgs = [], body_paras = []\<rparr>\<rparr>)
     ex_opts [''d''] 3 2 \<lparr>ep_id = 12, ep_title = ''Two''\<rparr> ex_world =
     Finished (write_file [''d'', ''2 - Two.txt''] (Text []) (log_request (EpisodeGet 12) ex_world))"
proof -
  let ?e1 = "\<lparr>ep_id = 11, ep_title = ''One''\<rparr>"
  let ?e2 = "\<lparr>ep_id = 12, ep_title = ''Two''\<rparr>"
  let ?E0 = "ex_env\<lparr>episode_reply := \<lambda>i. Some \<lparr>content_imgs = [], body_paras = []\<rparr>\<rparr>"
  have h1: "episode_reply ex_env (ep_id ?e1) = Some ex_comic" by (simp add: ex_env_def)
  have h2: "episode_reply ex_env (ep_id ?e2) = Some ex_novel" by (simp add: ex_env_def)
  have h3: "episode_reply ?E0 (ep_id ?e2) = Some \<lparr>content_imgs = [], body_paras = []\<rparr>" by simp
  have c1: "parse_comic_images ex_comic \<noteq> []" by code_simp
  have c2: "parse_comic_images ex_novel = []" by code_simp
  have n2: "parse_novel_text ex_novel = ''First.'' @ [CHR 0x0A, CHR 0x0A] @ ''Second.''" by code_simp
  have f2: "prose_fname ex_opts 2 3 ''Two'' = ''2 - Two.txt''" by code_simp
  note t1 = classification_image_first [OF h1, of ex_opts "[''d'']" 3 1 ex_world]
  note t2 = classification_image_first [OF h2, of ex_opts "[''d'']" 3 2 ex_world]
  note t3 = classification_image_first [OF h3, of ex_opts "[''d'']" 3 2 ex_world]
  from t1 c1 have a: "save_episode
     (ex_env\<lparr>episode_reply := (episode_reply ex_env)(ep_id ?e1 := Some (ex_comic\<lparr>body_paras := []\<rparr>))\<rparr>)
     ex_opts [''d''] 3 1 ?e1 ex_world = save_episode ex_env ex_opts [''d''] 3 1 ?e1 ex_world"
    by blast
  from t2 c2 have b: "save_episode ex_env ex_opts [''d''] 3 2 ?e2 ex_world =
     Finished (write_file [''d'', ''2 - Two.txt''] (Text (''First.'' @ [CHR 0x0A, CHR 0x0A] @ ''Second.''))
                 (log_request (EpisodeGet 12) ex_world))"
    by (simp add: n2 f2)
  from t3 have c: "save_episode ?E0 ex_opts [''d''] 3 2 ?e2 ex_world =
     Finished (write_file [''d'', ''2 - Two.txt''] (Text []) (log_request (EpisodeGet 12) ex_world))"
    by (simp add: f2)
  show ?thesis using h1 h2 c1 c2 a b c by simp
qed

text \<open>
  Claim C10: for an episode classified as prose, the text file written holds exactly the
  non-empty paragraph texts of the article body, in document order, joined by two
  newlines; a paragraph whose text is empty is left out.
\<close>

theorem prose_file_content:
  assumes "episode_reply E (ep_id ep) = Some html" and "parse_comic_images html = []"
  shows "files (world_of (save_episode E opts savePath n_eps ep_idx ep w))
           (savePath @ [prose_fname opts ep_idx n_eps (ep_title ep)])
         = Some (File (Text (join [CHR 0x0A, CHR 0x0A] (filter (\<lambda>txt. txt \<noteq> []) (body_paras html)))))"
  using save_episode_prose[OF assms, of opts savePath n_eps ep_idx w]
  by (simp add: parse_novel_text_filter)

theorem prose_file_content_witness:
  "episode_reply ex_env (ep_id \<lparr>ep_id = 12, ep_title = ''Two''\<rparr>) = Some ex_novel \<and>
   parse_comic_images ex_novel = [] \<and>
   body_paras ex_novel = [''First.'', [], ''Second.''] \<and>
   files (world_of (save_episode ex_env ex_opts [''d''] 3 2 \<lparr>ep_id = 12, ep_title = ''Two''\<rparr> ex_world))
     [''d'', ''2 - Two.txt'']
   = Some (File (Text (''First.'' @ [CHR 0x0A, CHR 0x0A] @ ''Second.'')))"
proof -
  let ?e2 = "\<lparr>ep_id = 12, ep_title = ''Two''\<rparr>"
  have h: "episode_reply ex_env (ep_id ?e2) = Some ex_novel" by (simp add: ex_env_def)
  have c: "parse_comic_images ex_novel = []" by code_simp
  have b: "body_paras ex_novel = [''First.'', [], ''Second.'']" by (simp add: ex_novel_def)
  have f: "prose_fname ex_opts 2 3 ''Two'' = ''2 - Two.txt''" by code_simp
  from prose_file_content [OF h c, of ex_opts "[''d'']" 3 2 ex_world]
  show ?thesis using h c b by (simp add: f)
qed

text \<open>
  One step of the image loop, and the prose branch: an image whose file already exists is neither fetched nor
  written (the world is unchanged by that step); an image whose file is missing is
  fetched and the bytes received are written as they are. No file that existed before
  the gallery loop is changed by it. The prose file of an episode is written without
  an existence check, whatever was at its path before.
\<close>

lemma image_step_and_prose:
  "(path_exists w (savePath @ [image_fname opts ep_idx n_eps img_idx n_imgs title img_url]) \<longrightarrow>
      save_image E opts savePath ep_idx n_eps title img_idx n_imgs img_url w = Finished w) \<and>
   (\<not> path_exists w (savePath @ [image_fname opts ep_idx n_eps img_idx n_imgs title img_url]) \<and>
    image_reply E img_url = Some imgdata \<longrightarrow>
      save_image E opts savePath ep_idx n_eps title img_idx n_imgs img_url w =
        Finished (w\<lparr>requests := requests w @ [ImageGet img_url],
                    files := (files w)(savePath @ [image_fname opts ep_idx n_eps img_idx n_imgs title img_url]
                                \<mapsto> File (Binary imgdata))\<rparr>)) \<and>
   (path_exists w p \<longrightarrow>
      files (world_of (save_images E opts savePath ep_idx n_eps title n_imgs img_idx imgs w)) p = files w p) \<and>
   (episode_reply E (ep_id ep) = Some html \<and> parse_comic_images html = [] \<longrightarrow>
      files (world_of (save_episode E opts savePath n_eps ep_idx ep w))
        (savePath @ [prose_fname opts ep_idx n_eps (ep_title ep)])
      = Some (File (Text (parse_novel_text html))) \<and>
      requests (world_of (save_episode E opts savePath n_eps ep_idx ep w))
      = requests w @ [EpisodeGet (ep_id ep)])"
proof (intro conjI impI)
  assume "path_exists w (savePath @ [image_fname opts ep_idx n_eps img_idx n_imgs title img_url])"
  then show "save_image E opts savePath ep_idx n_eps title img_idx n_imgs img_url w = Finished w"
    by (rule save_image_exists)
next
  assume "\<not> path_exists w (savePath @ [image_fname opts ep_idx n_eps img_idx n_imgs title img_url]) \<and>
    image_reply E img_url = Some imgdata"
  then show "save_image E opts savePath ep_idx n_eps title img_idx n_imgs img_url w =
        Finished (w\<lparr>requests := requests w @ [ImageGet img_url],
                    files := (files w)(savePath @ [image_fname opts ep_idx n_eps img_idx n_imgs title img_url]
                                \<mapsto> File (Binary imgdata))\<rparr>)"
    by (simp add: save_image_def write_file_def log_request_def)
next
  assume "path_exists w p"
  then show "files (world_of (save_images E opts savePath ep_idx n_eps title n_imgs img_idx imgs w)) p = files w p"
    by (rule save_images_keeps)
next
  assume a: "episode_reply E (ep_id ep) = Some html \<and> parse_comic_images html = []"
  then show "files (world_of (save_episode E opts savePath n_eps ep_idx ep w))
        (savePath @ [prose_fname opts ep_idx n_eps (ep_title ep)])
      = Some (File (Text (parse_novel_text html)))"
    using save_episode_prose[of E ep html opts savePath n_eps ep_idx w] by simp
  from a show "requests (world_of (save_episode E opts savePath n_eps ep_idx ep w))
      = requests w @ [EpisodeGet (ep_id ep)]"
    using save_episode_prose[of E ep html opts savePath n_eps ep_idx w] by simp
qed

lemma image_step_and_prose_example:
  "path_exists ex_partial ([''d''] @ [image_fname ex_opts 1 3 1 2 ''One'' ''https://cdn.example/a.png'']) \<and>
   save_image ex_env ex_opts [''d''] 1 3 ''One'' 1 2 ''https://cdn.example/a.png'' ex_partial
     = Finished ex_partial \<and>
   \<not> path_exists ex_partial ([''d''] @ [image_fname ex_opts 2 3 2 2 ''One'' ''https://cdn.example/b.png'']) \<and>
   image_reply ex_env ''https://cdn.example/b.png'' = Some [3] \<and>
   save_image ex_env ex_opts [''d''] 2 3 ''One'' 2 2 ''https://cdn.example/b.png'' ex_partial
     = Finished (ex_partial\<lparr>requests := requests ex_partial @ [ImageGet ''https://cdn.example/b.png''],
                   files := (files ex_partial)([''d'', ''2 - 2 - One.png''] \<mapsto> File (Binary [3]))\<rparr>) \<and>
   path_exists ex_partial [''d'', ''1 - 1 - One.png''] \<and>
   files (world_of (save_images ex_env ex_opts [''d''] 1 3 ''One'' 2 1
            [''https://cdn.example/a.png'', ''https://cdn.example/b.png''] ex_partial))
     [''d'', ''1 - 1 - One.png''] = Some (File (Binary [9])) \<and>
   episode_reply ex_env (ep_id \<lparr>ep_id = 12, ep_title = ''Two''\<rparr>) = Some ex_novel \<and>
   parse_comic_images ex_novel = [] \<and>
   files ex_partial [''d'', ''2 - Two.txt''] = Some (File (Text ''old'')) \<and>
   files (world_of (save_episode ex_env ex_opts [''d''] 3 2 \<lparr>ep_id = 12, ep_title = ''Two''\<rparr> ex_partial))
     [''d'', ''2 - Two.txt'']
   = Some (File (Text (''First.'' @ [CHR 0x0A, CHR 0x0A] @ ''Second.'')))"
proof -
  let ?a = "''https://cdn.example/a.png''" and ?b = "''https://cdn.example/b.png''"
  let ?e2 = "\<lparr>ep_id = 12, ep_title = ''Two''\<rparr>"
  have fa: "image_fname ex_opts 1 3 1 2 ''One'' ?a = ''1 - 1 - One.png''" by code_simp
  have fb: "image_fname ex_opts 2 3 2 2 ''One'' ?b = ''2 - 2 - One.png''" by code_simp
  have ft: "prose_fname ex_opts 2 3 ''Two'' = ''2 - Two.txt''" by code_simp
  have xa: "path_exists ex_partial [''d'', ''1 - 1 - One.png'']"
    by (simp add: path_exists_def ex_partial_def)
  have xb: "\<not> path_exists ex_partial [''d'', ''2 - 2 - One.png'']"
    by (simp add: path_exists_def ex_partial_def)
  have old: "files ex_partial [''d'', ''1 - 1 - One.png''] = Some (File (Binary [9]))"
    "files ex_partial [''d'', ''2 - Two.txt''] = Some (File (Text ''old''))"
    by (simp_all add: ex_partial_def)
  have rb: "image_reply ex_env ?b = Some [3]" by (simp add: ex_env_def)
  have h: "episode_reply ex_env (ep_id ?e2) = Some ex_novel" by (simp add: ex_env_def)
  have c: "parse_comic_images ex_novel = []" by code_simp
  have n: "parse_novel_text ex_novel = ''First.'' @ [CHR 0x0A, CHR 0x0A] @ ''Second.''" by code_simp
  note t1 = image_step_and_prose [where w = ex_partial and savePath = "[''d'']" and opts = ex_opts
      and ep_idx = 1 and n_eps = 3 and img_idx = 1 and n_imgs = 2 and title = "''One''" and img_url = ?a
      and E = ex_env and p = "[''d'', ''1 - 1 - One.png'']" and imgs = "[?a, ?b]"]
  note t2 = image_step_and_prose [where w = ex_partial and savePath = "[''d'']" and opts = ex_opts
      and ep_idx = 2 and n_eps = 3 and img_idx = 2 and n_imgs = 2 and title = "''One''" and img_url = ?b
      and E = ex_env and imgdata = "[3]" and ep = ?e2 and html = ex_novel]
  from t1 xa have s1: "save_image ex_env ex_opts [''d''] 1 3 ''One'' 1 2 ?a ex_partial = Finished ex_partial"
    by (simp add: fa)
  from t2 xb rb have s2: "save_image ex_env ex_opts [''d''] 2 3 ''One'' 2 2 ?b ex_partial
     = Finished (ex_partial\<lparr>requests := requests ex_partial @ [ImageGet ?b],
                   files := (files ex_partial)([''d'', ''2 - 2 - One.png''] \<mapsto> File (Binary [3]))\<rparr>)"
    by (simp add: fb)
  from t1 xa have s3: "files (world_of (save_images ex_env ex_opts [''d''] 1 3 ''One'' 2 1 [?a, ?b] ex_partial))
     [''d'', ''1 - 1 - One.png''] = Some (File (Binary [9]))"
    by (simp add: old)
  from t2 h c have s4: "files (world_of (save_episode ex_env ex_opts [''d''] 3 2 ?e2 ex_partial))
     [''d'', ''2 - Two.txt''] = Some (File (Text (''First.'' @ [CHR 0x0A, CHR 0x0A] @ ''Second.'')))"
    by (simp add: ft n)
  show ?thesis using xa xb rb h c old s1 s2 s3 s4 by (simp add: fa fb)
qed

section \<open>Series and runs\<close>

lemma save_episode_keeps:
  assumes "path_exists w p" and "\<forall>x. p \<noteq> savePath @ [x]"
  shows "files (world_of (save_episode E opts savePath n_eps ep_idx ep w)) p = files w p"
proof (cases "episode_reply E (ep_id ep)")
  case None
  then show ?thesis by (simp add: save_episode_def)
next
  case (Some html)
  show ?thesis
  proof (cases "parse_comic_images html = []")
    case True
    with Some assms(2) show ?thesis by (simp add: save_episode_prose)
  next
    case False
    have "path_exists (log_request (EpisodeGet (ep_id ep)) w) p" using assms(1) by simp
    from save_images_keeps[OF this] show ?thesis
      using Some False by (simp add: save_episode_gallery)
  qed
qed

lemma episode_loop_keeps:
  assumes "\<forall>x. p \<noteq> savePath @ [x]"
  shows "path_exists w p \<Longrightarrow>
         files (world_of (episode_loop E opts savePath n_eps ep_idx eps w)) p = files w p"
proof (induction eps arbitrary: ep_idx w)
  case Nil
  then show ?case by simp
next
  case (Cons ep rest)
  let ?step = "save_episode E opts savePath n_eps ep_idx ep w"
  have k: "files (world_of ?step) p = files w p"
    using Cons.prems assms by (rule save_episode_keeps)
  show ?case
  proof (cases ?step)
    case (Finished w')
    with k have "files w' p = files w p" by simp
    moreover from this Cons.prems have "path_exists w' p" by (simp add: path_exists_def)
    ultimately show ?thesis using Cons.IH[of w' "ep_idx + 1"] Finished by simp
  next
    case (Aborted e w')
    with k show ?thesis by simp
  qed
qed

lemma mkdir_parents_dir:
  "\<not> path_exists w p \<Longrightarrow> files (mkdir_parents p w) p = Some Dir"
  by (simp add: mkdir_parents_def path_exists_def)

lemma process_series_found:
  assumes "get_series_id url = Inr sid" and "py_int E sid = Some n" and "series_reply E n = SeriesObject sr"
  shows "process_series E opts url w =
    (if \<not> path_exists w (save_path opts (series_title sr) sid)
     then episode_loop E opts (save_path opts (series_title sr) sid) (int (length (series_entries sr))) 1
            (series_entries sr)
            (mkdir_parents (save_path opts (series_title sr) sid) (log_request (SeriesQuery n) w))
     else if \<not> opt_force opts then Finished (log_request (SeriesQuery n) w)
     else episode_loop E opts (save_path opts (series_title sr) sid) (int (length (series_entries sr))) 1
            (series_entries sr) (log_request (SeriesQuery n) w))"
  using assms by (simp add: process_series_def fetch_series_def Let_def)

lemma process_series_leaves_dir:
  assumes "get_series_id url = Inr sid" and "py_int E sid = Some n" and "series_reply E n = SeriesObject sr"
  shows "path_exists (world_of (process_series E opts url w)) (save_path opts (series_title sr) sid)"
proof -
  let ?sp = "save_path opts (series_title sr) sid"
  let ?w1 = "log_request (SeriesQuery n) w"
  have nochild: "\<forall>x. ?sp \<noteq> ?sp @ [x]" by simp
  note ps = process_series_found[OF assms, of opts w]
  show ?thesis
  proof (cases "path_exists w ?sp")
    case False
    have d: "files (mkdir_parents ?sp ?w1) ?sp = Some Dir"
      using False by (intro mkdir_parents_dir) simp
    then have "path_exists (mkdir_parents ?sp ?w1) ?sp" by (simp add: path_exists_def)
    from episode_loop_keeps[OF nochild this] d show ?thesis
      using False by (simp add: ps path_exists_def)
  next
    case True
    then have x: "path_exists ?w1 ?sp" by simp
    show ?thesis
    proof (cases "opt_force opts")
      case False
      with True show ?thesis by (simp add: ps)
    next
      case f: True
      from episode_loop_keeps[OF nochild x] x show ?thesis
        using True f by (simp add: ps path_exists_def)
    qed
  qed
qed

lemma main_single: "main E opts [url] w = process_series E opts url w"
  by (simp split: outcome.splits)

text \<open>
  The branches of the gate: once the metadata of a series has been fetched, an existing destination
  without \<open>force\<close> ends the series before the episode loop (the world changes only by
  the logged metadata request); an existing destination with \<open>force\<close> goes on to the
  episode loop in the world as it is; a missing destination is created and the loop
  runs, and the directory is there when the series ends or is aborted.
\<close>

lemma series_gate_branches:
  assumes "get_series_id url = Inr sid" and "py_int E sid = Some n" and "series_reply E n = SeriesObject sr"
  shows
    "(path_exists w (save_path opts (series_title sr) sid) \<and> \<not> opt_force opts \<longrightarrow>
        process_series E opts url w = Finished (log_request (SeriesQuery n) w)) \<and>
     (path_exists w (save_path opts (series_title sr) sid) \<and> opt_force opts \<longrightarrow>
        process_series E opts url w =
          episode_loop E opts (save_path opts (series_title sr) sid) (int (length (series_entries sr))) 1
            (series_entries sr) (log_request (SeriesQuery n) w)) \<and>
     (\<not> path_exists w (save_path opts (series_title sr) sid) \<longrightarrow>
        process_series E opts url w =
          episode_loop E opts (save_path opts (series_title sr) sid) (int (length (series_entries sr))) 1
            (series_entries sr)
            (mkdir_parents (save_path opts (series_title sr) sid) (log_request (SeriesQuery n) w)) \<and>
        files (mkdir_parents (save_path opts (series_title sr) sid) (log_request (SeriesQuery n) w))
          (save_path opts (series_title sr) sid) = Some Dir \<and>
        files (world_of (process_series E opts url w)) (save_path opts (series_title sr) sid) = Some Dir)"
proof -
  let ?sp = "save_path opts (series_title sr) sid"
  let ?w1 = "log_request (SeriesQuery n) w"
  note ps = process_series_found[OF assms, of opts w]
  have a: "path_exists w ?sp \<and> \<not> opt_force opts \<longrightarrow> process_series E opts url w = Finished ?w1"
    by (simp add: ps)
  have b: "path_exists w ?sp \<and> opt_force opts \<longrightarrow>
        process_series E opts url w =
          episode_loop E opts ?sp (int (length (series_entries sr))) 1 (series_entries sr) ?w1"
    by (simp add: ps)
  have c: "process_series E opts url w =
          episode_loop E opts ?sp (int (length (series_entries sr))) 1 (series_entries sr)
            (mkdir_parents ?sp ?w1) \<and>
        files (mkdir_parents ?sp ?w1) ?sp = Some Dir \<and>
        files (world_of (process_series E opts url w)) ?sp = Some Dir"
    if nx: "\<not> path_exists w ?sp"
  proof -
    have eq: "process_series E opts url w =
          episode_loop E opts ?sp (int (length (series_entries sr))) 1 (series_entries sr)
            (mkdir_parents ?sp ?w1)"
      using nx by (simp add: ps)
    have d: "files (mkdir_parents ?sp ?w1) ?sp = Some Dir"
      using nx by (intro mkdir_parents_dir) simp
    then have x: "path_exists (mkdir_parents ?sp ?w1) ?sp" by (simp add: path_exists_def)
    have nochild: "\<forall>x. ?sp \<noteq> ?sp @ [x]" by simp
    from episode_loop_keeps[OF nochild x] d eq show ?thesis by simp
  qed
  from a b c show ?thesis by blast
qed

lemma series_gate_branches_example:
  "get_series_id ''2'' = Inr ''2'' \<and> py_int ex_env ''2'' = Some 2 \<and> series_reply ex_env 2 = SeriesObject ex_series2 \<and>
   save_path ex_opts (series_title ex_series2) ''2'' = [''out'', ''Beta [2]''] \<and>
   \<not> path_exists ex_world [''out'', ''Beta [2]''] \<and>
   files (world_of (process_series ex_env ex_opts ''2'' ex_world)) [''out'', ''Beta [2]''] = Some Dir \<and>
   path_exists (world_of (process_series ex_env ex_opts ''2'' ex_world)) [''out'', ''Beta [2]''] \<and>
   \<not> opt_force ex_opts \<and>
   process_series ex_env ex_opts ''2'' (world_of (process_series ex_env ex_opts ''2'' ex_world))
     = Finished (log_request (SeriesQuery 2) (world_of (process_series ex_env ex_opts ''2'' ex_world))) \<and>
   opt_force (ex_opts\<lparr>opt_force := True\<rparr>) \<and>
   process_series ex_env (ex_opts\<lparr>opt_force := True\<rparr>) ''2''
       (world_of (process_series ex_env ex_opts ''2'' ex_world))
     = episode_loop ex_env (ex_opts\<lparr>opt_force := True\<rparr>) [''out'', ''Beta [2]''] 1 1
         [\<lparr>ep_id = 21, ep_title = ''Intro''\<rparr>]
         (log_request (SeriesQuery 2) (world_of (process_series ex_env ex_opts ''2'' ex_world)))"
proof -
  let ?w1 = "world_of (process_series ex_env ex_opts ''2'' ex_world)"
  let ?f = "ex_opts\<lparr>opt_force := True\<rparr>"
  have h1: "get_series_id ''2'' = Inr ''2''" by (simp add: get_series_id_def)
  have h2: "py_int ex_env ''2'' = Some 2" by (simp add: ex_env_def ex_int_def)
  have h3: "series_reply ex_env 2 = SeriesObject ex_series2" by (simp add: ex_env_def)
  have sp: "save_path ex_opts (series_title ex_series2) ''2'' = [''out'', ''Beta [2]'']" by code_simp
  have spf: "save_path ?f (series_title ex_series2) ''2'' = [''out'', ''Beta [2]'']" by code_simp
  have nx: "\<not> path_exists ex_world [''out'', ''Beta [2]'']"
    by (simp add: path_exists_def ex_world_def)
  have nf: "\<not> opt_force ex_opts" by (simp add: ex_opts_def)
  have en: "series_entries ex_series2 = [\<lparr>ep_id = 21, ep_title = ''Intro''\<rparr>]"
    by (simp add: ex_series2_def)
  note t1 = series_gate_branches [OF h1 h2 h3, of ex_world ex_opts]
  from t1 nx have d: "files ?w1 [''out'', ''Beta [2]''] = Some Dir" unfolding sp by blast
  then have x: "path_exists ?w1 [''out'', ''Beta [2]'']" by (simp add: path_exists_def)
  note t2 = series_gate_branches [OF h1 h2 h3, of ?w1 ex_opts]
  from t2 x nf have a: "process_series ex_env ex_opts ''2'' ?w1 = Finished (log_request (SeriesQuery 2) ?w1)"
    unfolding sp by blast
  note t3 = series_gate_branches [OF h1 h2 h3, of ?w1 ?f]
  from t3 x have b: "process_series ex_env ?f ''2'' ?w1
     = episode_loop ex_env ?f [''out'', ''Beta [2]''] 1 1 [\<lparr>ep_id = 21, ep_title = ''Intro''\<rparr>]
         (log_request (SeriesQuery 2) ?w1)"
    unfolding spf en by simp
  show ?thesis using h1 h2 h3 sp nx d x nf a b by simp
qed

lemma process_series_rerun:
  assumes "\<not> opt_force opts"
  shows "files (world_of (process_series E opts url (world_of (process_series E opts url w))))
           = files (world_of (process_series E opts url w)) \<and>
         requests (world_of (process_series E opts url (world_of (process_series E opts url w))))
           = requests (world_of (process_series E opts url w)) @
               (case get_series_id url of
                  Inl e \<Rightarrow> []
                | Inr sid \<Rightarrow> (case py_int E sid of None \<Rightarrow> [] | Some n \<Rightarrow> [SeriesQuery n]))"
proof (cases "get_series_id url")
  case (Inl e)
  then show ?thesis by (simp add: process_series_def)
next
  case (Inr sid)
  show ?thesis
  proof (cases "py_int E sid")
    case None
    with Inr show ?thesis by (simp add: process_series_def fetch_series_def)
  next
    case (Some n)
    show ?thesis
    proof (cases "series_reply E n")
      case NoAnswer
      with Inr Some show ?thesis by (simp add: process_series_def fetch_series_def)
    next
      case NullSeries
      with Inr Some show ?thesis by (simp add: process_series_def fetch_series_def)
    next
      case found: (SeriesObject sr)
      let ?w1 = "world_of (process_series E opts url w)"
      have "path_exists ?w1 (save_path opts (series_title sr) sid)"
        using Inr Some found by (rule process_series_leaves_dir)
      then have "process_series E opts url ?w1 = Finished (log_request (SeriesQuery n) ?w1)"
        using assms by (simp add: process_series_found[OF Inr Some found])
      then show ?thesis using Inr Some by simp
    qed
  qed
qed

text \<open>
  Claim C9, as the code has it: the metadata query comes before the test of the
  destination directory (the directory name needs the title), so a second run without
  \<open>force\<close> sends the metadata query again whenever the identifier is numeric. It makes
  no other request (no episode page, no image) and leaves every file as the first run
  left it.
\<close>

theorem rerun_without_force:
  assumes "\<not> opt_force opts"
  shows "files (world_of (main E opts [url] (world_of (main E opts [url] w))))
           = files (world_of (main E opts [url] w)) \<and>
         requests (world_of (main E opts [url] (world_of (main E opts [url] w))))
           = requests (world_of (main E opts [url] w)) @
               (case get_series_id url of
                  Inl e \<Rightarrow> []
                | Inr sid \<Rightarrow> (case py_int E sid of None \<Rightarrow> [] | Some n \<Rightarrow> [SeriesQuery n]))"
  unfolding main_single using assms by (rule process_series_rerun)

theorem rerun_without_force_witness:
  "\<not> opt_force ex_opts \<and>
   files (world_of (main ex_env ex_opts [''2''] (world_of (main ex_env ex_opts [''2''] ex_world))))
     = files (world_of (main ex_env ex_opts [''2''] ex_world)) \<and>
   requests (world_of (main ex_env ex_opts [''2''] (world_of (main ex_env ex_opts [''2''] ex_world))))
     = requests (world_of (main ex_env ex_opts [''2''] ex_world)) @ [SeriesQuery 2] \<and>
   files (world_of (main ex_env ex_opts [''2''] ex_world)) [''out'', ''Beta [2]'', ''1 - Intro.txt'']
     = Some (File (Text (''First.'' @ [CHR 0x0A, CHR 0x0A] @ ''Second.'')))"
proof -
  have nf: "\<not> opt_force ex_opts" by (simp add: ex_opts_def)
  have g: "get_series_id ''2'' = Inr ''2''" by (simp add: get_series_id_def)
  have i: "py_int ex_env ''2'' = Some 2" by (simp add: ex_env_def ex_int_def)
  have f: "files (world_of (main ex_env ex_opts [''2''] ex_world)) [''out'', ''Beta [2]'', ''1 - Intro.txt'']
     = Some (File (Text (''First.'' @ [CHR 0x0A, CHR 0x0A] @ ''Second.'')))"
    by code_simp
  from rerun_without_force [OF nf, of ex_env "''2''" ex_world]
  show ?thesis using nf f by (simp add: g i)
qed

text \<open>
  The claim as written fails: the second run on series 2 sends one more request, the
  metadata query.
\<close>

theorem rerun_counterexample:
  "\<not> opt_force ex_opts \<and>
   requests (world_of (main ex_env ex_opts [''2''] ex_world)) = [SeriesQuery 2, EpisodeGet 21] \<and>
   requests (world_of (main ex_env ex_opts [''2''] (world_of (main ex_env ex_opts [''2''] ex_world))))
     = [SeriesQuery 2, EpisodeGet 21, SeriesQuery 2]"
  by code_simp

lemma episode_loop_fetch_failure:
  "\<exists>ep \<in> set eps. episode_reply E (ep_id ep) = None \<Longrightarrow>
   \<exists>e w'. episode_loop E opts savePath n_eps ep_idx eps w = Aborted e w'"
proof (induction eps arbitrary: ep_idx w)
  case Nil
  then show ?case by simp
next
  case (Cons ep rest)
  show ?case
  proof (cases "save_episode E opts savePath n_eps ep_idx ep w")
    case (Aborted e w')
    then show ?thesis by simp
  next
    case (Finished w')
    then have "episode_reply E (ep_id ep) \<noteq> None"
      by (cases "episode_reply E (ep_id ep)") (simp_all add: save_episode_def)
    with Cons.prems have "\<exists>ep \<in> set rest. episode_reply E (ep_id ep) = None" by auto
    from Cons.IH[OF this, of "ep_idx + 1" w'] Finished show ?thesis by simp
  qed
qed

lemma main_abort:
  "process_series E opts url w = Aborted e w' \<Longrightarrow> main E opts (url # urls) w = Aborted e w'"
  by simp

text \<open>
  Claim C1 does not hold of the code: nothing catches the exception of a failed episode
  fetch, so it ends the whole run, not only the episode loop of its series. With the
  example host, episode 13 of series 1 cannot be fetched: the run over series 1 and 2 is
  aborted there, no request for series 2 is ever made and nothing of series 2 is
  written, although series 2 alone downloads without error.
\<close>

theorem episode_fetch_failure_aborts_run:
  "(case main ex_env ex_opts [''1'', ''2''] ex_world of
      Finished w \<Rightarrow> False
    | Aborted e w \<Rightarrow>
        e = RequestFailed (EpisodeGet 13) \<and>
        requests w = [SeriesQuery 1, EpisodeGet 11, ImageGet ''https://cdn.example/a.png'',
                      ImageGet ''https://cdn.example/b.png'', EpisodeGet 12, EpisodeGet 13] \<and>
        files w [''out'', ''Alpha [1]'', ''1 - 1 - One.png''] = Some (File (Binary [1, 2])) \<and>
        files w [''out'', ''Alpha [1]'', ''1 - 2 - One.png''] = Some (File (Binary [3])) \<and>
        files w [''out'', ''Alpha [1]'', ''2 - Two.txt'']
          = Some (File (Text (''First.'' @ [CHR 0x0A, CHR 0x0A] @ ''Second.''))) \<and>
        files w [''out'', ''Beta [2]''] = None \<and>
        files w [''out'', ''Beta [2]'', ''1 - Intro.txt''] = None) \<and>
   (case main ex_env ex_opts [''2''] ex_world of
      Finished w \<Rightarrow>
        requests w = [SeriesQuery 2, EpisodeGet 21] \<and>
        files w [''out'', ''Beta [2]'', ''1 - Intro.txt'']
          = Some (File (Text (''First.'' @ [CHR 0x0A, CHR 0x0A] @ ''Second.'')))
    | Aborted e w \<Rightarrow> False)"
  by code_simp

theorem episode_fetch_failure_aborts_run_witness:
  "\<exists>w. main ex_env ex_opts [''1'', ''2''] ex_world = Aborted (RequestFailed (EpisodeGet 13)) w \<and>
       SeriesQuery 2 \<notin> set (requests w) \<and> files w [''out'', ''Beta [2]''] = None"
  using episode_fetch_failure_aborts_run
  by (cases "main ex_env ex_opts [''1'', ''2''] ex_world") auto

section \<open>Labels and paths by position\<close>

lemma decimal_value_lead0: "0 \<le> i \<Longrightarrow> decimal_value (lead0 i n) = nat i"
  by (simp add: lead0_nonneg decimal_value_zeros decimal_value_str_nat)

lemma lead0_inj:
  assumes "0 \<le> i" and "0 \<le> j" and "lead0 i n = lead0 j n"
  shows "i = j"
proof -
  have "nat i = nat j"
    using decimal_value_lead0[OF assms(1), of n] decimal_value_lead0[OF assms(2), of n] assms(3)
    by simp
  with assms(1,2) show ?thesis by simp
qed

lemma lead0_append_inj:
  assumes "1 \<le> i" "i \<le> n" "1 \<le> j" "j \<le> n" and "lead0 i n @ r = lead0 j n @ r'"
  shows "i = j"
proof -
  have "length (lead0 i n) = length (lead0 j n)"
    using lead0_width[OF assms(1,2)] lead0_width[OF assms(3,4)] by simp
  with assms(5) have "lead0 i n = lead0 j n" by simp
  then show ?thesis using assms(1,3) by (intro lead0_inj[of i j n]) simp_all
qed

lemma image_fname_layout:
  "image_fname opts e n i m title url =
     lead0 e n @ '' - '' @ lead0 i m @ '' - '' @ check_path title True (opt_restrict opts) @ ''.''
       @ check_path (last (str_split url ''.'')) True (opt_restrict opts)"
  unfolding image_fname_def
  by (simp only: check_path_append check_path_lead0 check_path_separators)

lemma prose_fname_layout:
  "prose_fname opts e n title =
     lead0 e n @ '' - '' @ check_path title True (opt_restrict opts) @ ''.txt''"
  unfolding prose_fname_def
  by (simp only: check_path_append check_path_lead0 check_path_separators)

lemma image_fname_index_inj:
  assumes "1 \<le> i" "i \<le> m" "1 \<le> j" "j \<le> m"
    and "image_fname opts e n i m title url = image_fname opts e n j m title' url'"
  shows "i = j"
proof -
  from assms(5) have "lead0 e n @ ('' - '' @ lead0 i m @ '' - '' @ check_path title True (opt_restrict opts) @ ''.''
       @ check_path (last (str_split url ''.'')) True (opt_restrict opts))
     = lead0 e n @ ('' - '' @ lead0 j m @ '' - '' @ check_path title' True (opt_restrict opts) @ ''.''
       @ check_path (last (str_split url' ''.'')) True (opt_restrict opts))"
    by (simp only: image_fname_layout)
  then have "'' - '' @ (lead0 i m @ '' - '' @ check_path title True (opt_restrict opts) @ ''.''
       @ check_path (last (str_split url ''.'')) True (opt_restrict opts))
     = '' - '' @ (lead0 j m @ '' - '' @ check_path title' True (opt_restrict opts) @ ''.''
       @ check_path (last (str_split url' ''.'')) True (opt_restrict opts))"
    by (simp only: same_append_eq)
  then have "lead0 i m @ ('' - '' @ check_path title True (opt_restrict opts) @ ''.''
       @ check_path (last (str_split url ''.'')) True (opt_restrict opts))
     = lead0 j m @ ('' - '' @ check_path title' True (opt_restrict opts) @ ''.''
       @ check_path (last (str_split url' ''.'')) True (opt_restrict opts))"
    by (simp only: same_append_eq)
  with assms(1-4) show ?thesis by (rule lead0_append_inj)
qed

lemma image_path_inj:
  assumes "int j + 1 \<le> m" "int j' + 1 \<le> m"
    and "image_path opts sp n k title m j u = image_path opts sp n k title' m j' u'"
  shows "j = j'"
proof -
  from assms(3) have "image_fname opts (int k + 1) n (int j + 1) m title u
      = image_fname opts (int k + 1) n (int j' + 1) m title' u'"
    by (simp add: image_path_def)
  from image_fname_index_inj[OF _ assms(1) _ assms(2) this] show ?thesis by simp
qed

lemma image_path_area: "image_path opts sp n k title m j u \<in> episode_area sp n k"
  unfolding episode_area_def image_path_def by (subst image_fname_layout) blast

lemma prose_path_area: "prose_path opts sp n k title \<in> episode_area sp n k"
  unfolding episode_area_def prose_path_def by (subst prose_fname_layout) blast

lemma episode_area_disjoint:
  assumes "int k + 1 \<le> n" "int k' + 1 \<le> n" "k \<noteq> k'"
  shows "episode_area sp n k \<inter> episode_area sp n k' = {}"
proof -
  { fix p assume "p \<in> episode_area sp n k" "p \<in> episode_area sp n k'"
    then have "\<exists>r r'. lead0 (int k + 1) n @ r = lead0 (int k' + 1) n @ r'"
      unfolding episode_area_def by auto
    then obtain r r' where "lead0 (int k + 1) n @ r = lead0 (int k' + 1) n @ r'" by blast
    from lead0_append_inj[OF _ assms(1) _ assms(2) this] have "k = k'" by simp
    with assms(3) have False by simp }
  then show ?thesis by blast
qed

section \<open>The loops when everything can be fetched\<close>

lemma save_image_at:
  "save_image E opts sp (int k + 1) n title (int j + 1) m u w =
     (if path_exists w (image_path opts sp n k title m j u) then Finished w
      else (case image_reply E u of
              None \<Rightarrow> Aborted (RequestFailed (ImageGet u)) (log_request (ImageGet u) w)
            | Some imgdata \<Rightarrow>
                Finished (write_file (image_path opts sp n k title m j u) (Binary imgdata)
                            (log_request (ImageGet u) w))))"
  unfolding save_image_def image_path_def Let_def by simp

lemma enumerate_later:
  assumes "(j, u) \<in> set (enumerate (Suc j0) rest)"
  shows "Suc j0 \<le> j \<and> j < Suc j0 + length rest \<and> u \<in> set rest"
  using assms by (auto simp: in_set_enumerate_eq)

lemma save_images_run:
  assumes "int j0 + int (length imgs) \<le> m" and "\<forall>u\<in>set imgs. image_reply E u \<noteq> None"
  shows "\<exists>w'. save_images E opts sp (int k + 1) n title m (int j0 + 1) imgs w = Finished w' \<and>
      requests w' = requests w @ map (\<lambda>(j, u). ImageGet u)
        (filter (\<lambda>(j, u). \<not> path_exists w (image_path opts sp n k title m j u)) (enumerate j0 imgs)) \<and>
      (\<forall>(j, u)\<in>set (enumerate j0 imgs).
          files w' (image_path opts sp n k title m j u) =
            (if path_exists w (image_path opts sp n k title m j u)
             then files w (image_path opts sp n k title m j u)
             else map_option (\<lambda>imgdata. File (Binary imgdata)) (image_reply E u))) \<and>
      (\<forall>p. p \<notin> (\<lambda>(j, u). image_path opts sp n k title m j u) ` set (enumerate j0 imgs)
           \<longrightarrow> files w' p = files w p)"
  using assms
proof (induction imgs arbitrary: j0 w)
  case Nil
  then show ?case by simp
next
  case (Cons u rest)
  let ?P = "\<lambda>j u. image_path opts sp n k title m j u"
  let ?later = "set (enumerate (Suc j0) rest)"
  have idx: "int j0 + 1 + 1 = int (Suc j0) + 1" by simp
  have bound0: "int j0 + 1 \<le> m" using Cons.prems(1) by simp
  have bound': "int (Suc j0) + int (length rest) \<le> m" using Cons.prems(1) by simp
  have avail': "\<forall>u\<in>set rest. image_reply E u \<noteq> None" using Cons.prems(2) by simp
  obtain b where b: "image_reply E u = Some b" using Cons.prems(2) by auto
  have distinct: "?P j u' \<noteq> ?P j0 u" if "(j, u') \<in> ?later" for j u'
  proof
    assume eq: "?P j u' = ?P j0 u"
    from enumerate_later[OF that] have "Suc j0 \<le> j" "j < Suc j0 + length rest" by simp_all
    then have "int j + 1 \<le> m" "j \<noteq> j0" using bound' by simp_all
    with image_path_inj[OF \<open>int j + 1 \<le> m\<close> bound0 eq] show False by simp
  qed
  then have notin: "?P j0 u \<notin> (\<lambda>(j, u). ?P j u) ` ?later" by force
  show ?case
  proof (cases "path_exists w (?P j0 u)")
    case True
    from Cons.IH[OF bound' avail', of w] obtain w' where
      run: "save_images E opts sp (int k + 1) n title m (int (Suc j0) + 1) rest w = Finished w'"
      and req: "requests w' = requests w @ map (\<lambda>(j, u). ImageGet u)
          (filter (\<lambda>(j, u). \<not> path_exists w (?P j u)) (enumerate (Suc j0) rest))"
      and own: "\<forall>(j, u)\<in>?later. files w' (?P j u) =
            (if path_exists w (?P j u) then files w (?P j u)
             else map_option (\<lambda>imgdata. File (Binary imgdata)) (image_reply E u))"
      and frame: "\<forall>p. p \<notin> (\<lambda>(j, u). ?P j u) ` ?later \<longrightarrow> files w' p = files w p"
      by blast
    have r1: "save_images E opts sp (int k + 1) n title m (int j0 + 1) (u # rest) w = Finished w'"
      using True run by (simp add: save_image_at idx)
    have r2: "requests w' = requests w @ map (\<lambda>(j, u). ImageGet u)
         (filter (\<lambda>(j, u). \<not> path_exists w (?P j u)) (enumerate j0 (u # rest)))"
      using True req by simp
    have r3: "\<forall>(j, u)\<in>set (enumerate j0 (u # rest)). files w' (?P j u) =
            (if path_exists w (?P j u) then files w (?P j u)
             else map_option (\<lambda>imgdata. File (Binary imgdata)) (image_reply E u))"
      using True own frame notin by simp
    have r4: "\<forall>p. p \<notin> (\<lambda>(j, u). ?P j u) ` set (enumerate j0 (u # rest)) \<longrightarrow> files w' p = files w p"
      using frame by simp
    from r1 r2 r3 r4 show ?thesis by blast
  next
    case False
    let ?w1 = "write_file (?P j0 u) (Binary b) (log_request (ImageGet u) w)"
    have same_ex: "path_exists ?w1 (?P j u') = path_exists w (?P j u')" if "(j, u') \<in> ?later" for j u'
      using distinct[OF that] by (simp add: path_exists_def)
    have same_f: "files ?w1 (?P j u') = files w (?P j u')" if "(j, u') \<in> ?later" for j u'
      using distinct[OF that] by simp
    from Cons.IH[OF bound' avail', of ?w1] obtain w' where
      run: "save_images E opts sp (int k + 1) n title m (int (Suc j0) + 1) rest ?w1 = Finished w'"
      and req: "requests w' = requests ?w1 @ map (\<lambda>(j, u). ImageGet u)
          (filter (\<lambda>(j, u). \<not> path_exists ?w1 (?P j u)) (enumerate (Suc j0) rest))"
      and own: "\<forall>(j, u)\<in>?later. files w' (?P j u) =
            (if path_exists ?w1 (?P j u) then files ?w1 (?P j u)
             else map_option (\<lambda>imgdata. File (Binary imgdata)) (image_reply E u))"
      and frame: "\<forall>p. p \<notin> (\<lambda>(j, u). ?P j u) ` ?later \<longrightarrow> files w' p = files ?w1 p"
      by blast
    have r1: "save_images E opts sp (int k + 1) n title m (int j0 + 1) (u # rest) w = Finished w'"
      using False b run by (simp add: save_image_at idx)
    have feq: "filter (\<lambda>(j, u). \<not> path_exists ?w1 (?P j u)) (enumerate (Suc j0) rest)
        = filter (\<lambda>(j, u). \<not> path_exists w (?P j u)) (enumerate (Suc j0) rest)"
      by (rule filter_cong) (auto simp: same_ex)
    have r2: "requests w' = requests w @ map (\<lambda>(j, u). ImageGet u)
         (filter (\<lambda>(j, u). \<not> path_exists w (?P j u)) (enumerate j0 (u # rest)))"
      using False req unfolding feq by simp
    have own0: "files w' (?P j0 u) = Some (File (Binary b))"
      using frame notin by simp
    have own': "files w' (?P j u') =
            (if path_exists w (?P j u') then files w (?P j u')
             else map_option (\<lambda>imgdata. File (Binary imgdata)) (image_reply E u'))"
      if "(j, u') \<in> ?later" for j u'
      using own that same_ex[OF that] same_f[OF that] by auto
    have r3: "\<forall>(j, u)\<in>set (enumerate j0 (u # rest)). files w' (?P j u) =
            (if path_exists w (?P j u) then files w (?P j u)
             else map_option (\<lambda>imgdata. File (Binary imgdata)) (image_reply E u))"
      using False own0 own' b by auto
    have r4: "\<forall>p. p \<notin> (\<lambda>(j, u). ?P j u) ` set (enumerate j0 (u # rest)) \<longrightarrow> files w' p = files w p"
      using frame by auto
    from r1 r2 r3 r4 show ?thesis by blast
  qed
qed

lemma save_images_gallery:
  assumes "\<forall>u\<in>set imgs. image_reply E u \<noteq> None"
  shows "\<exists>w'. save_images E opts sp (int k + 1) n title (int (length imgs)) 1 imgs w = Finished w' \<and>
      requests w' = requests w @ gallery_requests opts sp n k title imgs w \<and>
      (\<forall>(j, u)\<in>set (enumerate 0 imgs).
          files w' (image_path opts sp n k title (int (length imgs)) j u) =
            (if path_exists w (image_path opts sp n k title (int (length imgs)) j u)
             then files w (image_path opts sp n k title (int (length imgs)) j u)
             else map_option (\<lambda>imgdata. File (Binary imgdata)) (image_reply E u))) \<and>
      (\<forall>p. p \<notin> (\<lambda>(j, u). image_path opts sp n k title (int (length imgs)) j u) ` set (enumerate 0 imgs)
           \<longrightarrow> files w' p = files w p)"
proof -
  have "int 0 + int (length imgs) \<le> int (length imgs)" by simp
  from save_images_run[OF this assms, of opts sp k n title w]
  show ?thesis by (simp add: gallery_requests_def)
qed

lemma save_image_frame:
  "p \<noteq> sp @ [image_fname opts e n i m title u] \<Longrightarrow>
   files (world_of (save_image E opts sp e n title i m u w)) p = files w p"
  by (auto simp: save_image_def Let_def split: option.splits)

lemma image_fname_area: "sp @ [image_fname opts (int k + 1) n i m title u] \<in> episode_area sp n k"
  unfolding episode_area_def by (subst image_fname_layout) blast

lemma save_images_frame:
  assumes "p \<notin> episode_area sp n k"
  shows "files (world_of (save_images E opts sp (int k + 1) n title m i imgs w)) p = files w p"
proof (induction imgs arbitrary: i w)
  case Nil
  show ?case by simp
next
  case (Cons u rest)
  have "p \<noteq> sp @ [image_fname opts (int k + 1) n i m title u]"
    using assms image_fname_area[of sp opts k n i m title u] by blast
  from save_image_frame[OF this, of E w]
  have s: "files (world_of (save_image E opts sp (int k + 1) n title i m u w)) p = files w p" .
  show ?case
  proof (cases "save_image E opts sp (int k + 1) n title i m u w")
    case (Finished w1)
    with s Cons.IH[of "i + 1" w1] show ?thesis by simp
  next
    case (Aborted e w1)
    with s show ?thesis by simp
  qed
qed

lemma save_episode_frame:
  assumes "p \<notin> episode_area sp n k"
  shows "files (world_of (save_episode E opts sp n (int k + 1) ep w)) p = files w p"
proof (cases "episode_reply E (ep_id ep)")
  case None
  then show ?thesis by (simp add: save_episode_def)
next
  case (Some html)
  show ?thesis
  proof (cases "parse_comic_images html = []")
    case True
    have "p \<noteq> prose_path opts sp n k (ep_title ep)" using assms prose_path_area by blast
    then show ?thesis using Some True by (simp add: save_episode_prose prose_path_def)
  next
    case False
    from save_images_frame[OF assms] show ?thesis
      using Some False by (simp add: save_episode_gallery)
  qed
qed

lemma episode_loop_frame:
  assumes "\<forall>k. k0 \<le> k \<and> k < k0 + length eps \<longrightarrow> p \<notin> episode_area sp n k"
  shows "files (world_of (episode_loop E opts sp n (int k0 + 1) eps w)) p = files w p"
  using assms
proof (induction eps arbitrary: k0 w)
  case Nil
  show ?case by simp
next
  case (Cons ep rest)
  have "p \<notin> episode_area sp n k0" using Cons.prems by simp
  from save_episode_frame[OF this, of E opts ep w]
  have s: "files (world_of (save_episode E opts sp n (int k0 + 1) ep w)) p = files w p" .
  have later: "\<forall>k. Suc k0 \<le> k \<and> k < Suc k0 + length rest \<longrightarrow> p \<notin> episode_area sp n k"
    using Cons.prems by simp
  have idx: "int k0 + 1 + 1 = int (Suc k0) + 1" by simp
  show ?case
  proof (cases "save_episode E opts sp n (int k0 + 1) ep w")
    case (Finished w1)
    with s Cons.IH[OF later, of w1] show ?thesis by (simp add: idx)
  next
    case (Aborted e w1)
    with s show ?thesis by simp
  qed
qed

lemma gallery_requests_agree:
  assumes "\<forall>p\<in>episode_area sp n k. files w2 p = files w p"
  shows "gallery_requests opts sp n k title imgs w2 = gallery_requests opts sp n k title imgs w"
proof -
  have "path_exists w2 (image_path opts sp n k title m j u) = path_exists w (image_path opts sp n k title m j u)"
    for m j u using assms image_path_area[of opts sp n k title m j u] by (simp add: path_exists_def)
  then show ?thesis by (simp add: gallery_requests_def)
qed

lemma episode_requests_agree:
  assumes "\<forall>p\<in>episode_area sp n k. files w2 p = files w p"
  shows "episode_requests E opts sp n w2 k ep = episode_requests E opts sp n w k ep"
  using gallery_requests_agree[OF assms] by (simp add: episode_requests_def)

lemma episode_saved_agree:
  assumes "\<forall>p\<in>episode_area sp n k. files w2 p = files w p"
    and "\<forall>p\<in>episode_area sp n k. files w2' p = files w' p"
  shows "episode_saved E opts sp n w2 w2' k ep = episode_saved E opts sp n w w' k ep"
proof -
  have a: "files w2 (image_path opts sp n k title m j u) = files w (image_path opts sp n k title m j u)"
    for title m j u using assms(1) image_path_area[of opts sp n k title m j u] by simp
  have b: "files w2' (image_path opts sp n k title m j u) = files w' (image_path opts sp n k title m j u)"
    for title m j u using assms(2) image_path_area[of opts sp n k title m j u] by simp
  have c: "files w2' (prose_path opts sp n k title) = files w' (prose_path opts sp n k title)"
    for title using assms(2) prose_path_area[of opts sp n k title] by simp
  show ?thesis
    unfolding episode_saved_def path_exists_def by (simp only: a b c)
qed

lemma save_episode_run:
  assumes "episode_reply E (ep_id ep) \<noteq> None"
    and "list_all (\<lambda>img_url. image_reply E img_url \<noteq> None) (gallery_of E ep)"
  shows "\<exists>w'. save_episode E opts sp n (int k + 1) ep w = Finished w' \<and>
      requests w' = requests w @ episode_requests E opts sp n w k ep \<and>
      episode_saved E opts sp n w w' k ep \<and>
      (\<forall>p. p \<notin> episode_area sp n k \<longrightarrow> files w' p = files w p)"
proof -
  obtain html where html: "episode_reply E (ep_id ep) = Some html" using assms(1) by auto
  then have g: "gallery_of E ep = parse_comic_images html" by (simp add: gallery_of_def)
  let ?w1 = "log_request (EpisodeGet (ep_id ep)) w"
  show ?thesis
  proof (cases "parse_comic_images html = []")
    case True
    let ?w' = "write_file (prose_path opts sp n k (ep_title ep)) (Text (parse_novel_text html)) ?w1"
    have r1: "save_episode E opts sp n (int k + 1) ep w = Finished ?w'"
      using html True by (simp add: save_episode_prose prose_path_def)
    have r2: "requests ?w' = requests w @ episode_requests E opts sp n w k ep"
      using True by (simp add: episode_requests_def g gallery_requests_def)
    have r3: "episode_saved E opts sp n w ?w' k ep"
      using html True by (simp add: episode_saved_def)
    have r4: "\<forall>p. p \<notin> episode_area sp n k \<longrightarrow> files ?w' p = files w p"
      using prose_path_area[of opts sp n k "ep_title ep"] by auto
    from r1 r2 r3 r4 show ?thesis by blast
  next
    case False
    let ?imgs = "parse_comic_images html"
    let ?P = "\<lambda>j u. image_path opts sp n k (ep_title ep) (int (length ?imgs)) j u"
    have avail: "\<forall>u\<in>set ?imgs. image_reply E u \<noteq> None"
      using assms(2) by (simp add: g list_all_iff)
    from save_images_gallery[OF avail, of opts sp k n "ep_title ep" ?w1] obtain w' where
      run: "save_images E opts sp (int k + 1) n (ep_title ep) (int (length ?imgs)) 1 ?imgs ?w1 = Finished w'"
      and req: "requests w' = requests ?w1 @ gallery_requests opts sp n k (ep_title ep) ?imgs ?w1"
      and own: "\<forall>(j, u)\<in>set (enumerate 0 ?imgs). files w' (?P j u) =
            (if path_exists ?w1 (?P j u) then files ?w1 (?P j u)
             else map_option (\<lambda>imgdata. File (Binary imgdata)) (image_reply E u))"
      by blast
    have r1: "save_episode E opts sp n (int k + 1) ep w = Finished w'"
      using html False run by (simp add: save_episode_gallery)
    have "gallery_requests opts sp n k (ep_title ep) ?imgs ?w1
        = gallery_requests opts sp n k (ep_title ep) ?imgs w"
      by (rule gallery_requests_agree) simp
    with req have r2: "requests w' = requests w @ episode_requests E opts sp n w k ep"
      by (simp add: episode_requests_def g)
    have own': "\<forall>(j, u)\<in>set (enumerate 0 ?imgs). files w' (?P j u) =
            (if path_exists w (?P j u) then files w (?P j u)
             else map_option (\<lambda>imgdata. File (Binary imgdata)) (image_reply E u))"
      using own by (simp cong: if_cong)
    have r3: "episode_saved E opts sp n w w' k ep"
      unfolding episode_saved_def list_all_iff using html False own' by simp
    have r4: "\<forall>p. p \<notin> episode_area sp n k \<longrightarrow> files w' p = files w p"
      using save_episode_frame[of _ sp n k E opts ep w] r1 by simp
    from r1 r2 r3 r4 show ?thesis by blast
  qed
qed

lemma episode_loop_run:
  assumes "int k0 + int (length eps) \<le> n" and "all_fetchable E eps"
  shows "\<exists>w'. episode_loop E opts sp n (int k0 + 1) eps w = Finished w' \<and>
      requests w' = requests w @
        concat (map (\<lambda>(k, ep). episode_requests E opts sp n w k ep) (enumerate k0 eps)) \<and>
      (\<forall>(k, ep)\<in>set (enumerate k0 eps). episode_saved E opts sp n w w' k ep) \<and>
      (\<forall>p. (\<forall>k. k0 \<le> k \<and> k < k0 + length eps \<longrightarrow> p \<notin> episode_area sp n k)
           \<longrightarrow> files w' p = files w p)"
  using assms
proof (induction eps arbitrary: k0 w)
  case Nil
  then show ?case by simp
next
  case (Cons ep rest)
  have idx: "int k0 + 1 + 1 = int (Suc k0) + 1" by simp
  have bound0: "int k0 + 1 \<le> n" using Cons.prems(1) by simp
  have bound': "int (Suc k0) + int (length rest) \<le> n" using Cons.prems(1) by simp
  have f0: "episode_reply E (ep_id ep) \<noteq> None"
    "list_all (\<lambda>img_url. image_reply E img_url \<noteq> None) (gallery_of E ep)"
    and f': "all_fetchable E rest"
    using Cons.prems(2) by (simp_all add: all_fetchable_def)
  from save_episode_run[OF f0, of opts sp n k0 w] obtain w1 where
    step: "save_episode E opts sp n (int k0 + 1) ep w = Finished w1"
    and req1: "requests w1 = requests w @ episode_requests E opts sp n w k0 ep"
    and saved1: "episode_saved E opts sp n w w1 k0 ep"
    and frame1: "\<forall>p. p \<notin> episode_area sp n k0 \<longrightarrow> files w1 p = files w p"
    by blast
  from Cons.IH[OF bound' f', of w1] obtain w' where
    run: "episode_loop E opts sp n (int (Suc k0) + 1) rest w1 = Finished w'"
    and req: "requests w' = requests w1 @
        concat (map (\<lambda>(k, ep). episode_requests E opts sp n w1 k ep) (enumerate (Suc k0) rest))"
    and saved: "\<forall>(k, ep)\<in>set (enumerate (Suc k0) rest). episode_saved E opts sp n w1 w' k ep"
    and frame: "\<forall>p. (\<forall>k. Suc k0 \<le> k \<and> k < Suc k0 + length rest \<longrightarrow> p \<notin> episode_area sp n k)
           \<longrightarrow> files w' p = files w1 p"
    by blast
  have later_agree: "\<forall>p\<in>episode_area sp n k. files w1 p = files w p"
    if "Suc k0 \<le> k" "k < Suc k0 + length rest" for k
  proof -
    have "int k + 1 \<le> n" "k \<noteq> k0" using that bound' by simp_all
    from episode_area_disjoint[OF this(1) bound0 this(2), of sp] frame1 show ?thesis by blast
  qed
  have first_agree: "\<forall>p\<in>episode_area sp n k0. files w' p = files w1 p"
  proof
    fix p assume p: "p \<in> episode_area sp n k0"
    have "p \<notin> episode_area sp n k" if "Suc k0 \<le> k \<and> k < Suc k0 + length rest" for k
    proof -
      have "int k + 1 \<le> n" "k \<noteq> k0" using that bound' by simp_all
      from episode_area_disjoint[OF this(1) bound0 this(2), of sp] p show ?thesis by blast
    qed
    with frame show "files w' p = files w1 p" by blast
  qed
  have r1: "episode_loop E opts sp n (int k0 + 1) (ep # rest) w = Finished w'"
    using step run by (simp add: idx)
  have meq: "map (\<lambda>(k, ep). episode_requests E opts sp n w1 k ep) (enumerate (Suc k0) rest)
      = map (\<lambda>(k, ep). episode_requests E opts sp n w k ep) (enumerate (Suc k0) rest)"
  proof (rule map_cong[OF refl])
    fix x assume x: "x \<in> set (enumerate (Suc k0) rest)"
    obtain k e where ke: "x = (k, e)" by (cases x)
    with x have "Suc k0 \<le> k" "k < Suc k0 + length rest" by (auto simp: in_set_enumerate_eq)
    from episode_requests_agree[OF later_agree[OF this], of E opts e]
    show "(case x of (k, ep) \<Rightarrow> episode_requests E opts sp n w1 k ep)
        = (case x of (k, ep) \<Rightarrow> episode_requests E opts sp n w k ep)"
      by (simp add: ke)
  qed
  have r2: "requests w' = requests w @
        concat (map (\<lambda>(k, ep). episode_requests E opts sp n w k ep) (enumerate k0 (ep # rest)))"
    using req req1 unfolding meq by simp
  have s0: "episode_saved E opts sp n w w' k0 ep"
    using episode_saved_agree[of sp n k0 w w w' w1 E opts ep] first_agree saved1 by simp
  have s': "episode_saved E opts sp n w w' k e" if "(k, e) \<in> set (enumerate (Suc k0) rest)" for k e
  proof -
    from that have kr: "Suc k0 \<le> k" "k < Suc k0 + length rest" by (auto simp: in_set_enumerate_eq)
    from saved that have "episode_saved E opts sp n w1 w' k e" by blast
    with episode_saved_agree[of sp n k w1 w w' w' E opts e] later_agree[OF kr]
    show ?thesis by simp
  qed
  have r3: "\<forall>(k, ep)\<in>set (enumerate k0 (ep # rest)). episode_saved E opts sp n w w' k ep"
    using s0 s' by auto
  have r4: "\<forall>p. (\<forall>k. k0 \<le> k \<and> k < k0 + length (ep # rest) \<longrightarrow> p \<notin> episode_area sp n k)
           \<longrightarrow> files w' p = files w p"
  proof (intro allI impI)
    fix p assume a: "\<forall>k. k0 \<le> k \<and> k < k0 + length (ep # rest) \<longrightarrow> p \<notin> episode_area sp n k"
    then have "p \<notin> episode_area sp n k0" by simp
    with frame1 have "files w1 p = files w p" by blast
    moreover have "\<forall>k. Suc k0 \<le> k \<and> k < Suc k0 + length rest \<longrightarrow> p \<notin> episode_area sp n k"
      using a by simp
    with frame have "files w' p = files w1 p" by blast
    ultimately show "files w' p = files w p" by simp
  qed
  from r1 r2 r3 r4 show ?case by blast
qed

section \<open>What a run changes\<close>

lemma save_images_changed:
  assumes "files (world_of (save_images E opts sp (int k + 1) n title m (int j0 + 1) imgs w)) p \<noteq> files w p"
  shows "p \<in> (\<lambda>(j, u). image_path opts sp n k title m j u) ` set (enumerate j0 imgs)"
  using assms
proof (induction imgs arbitrary: j0 w)
  case Nil
  then show ?case by simp
next
  case (Cons u rest)
  have idx: "int j0 + 1 + 1 = int (Suc j0) + 1" by simp
  show ?case
  proof (cases "p = image_path opts sp n k title m j0 u")
    case True
    then show ?thesis by simp
  next
    case False
    then have "p \<noteq> sp @ [image_fname opts (int k + 1) n (int j0 + 1) m title u]"
      by (simp add: image_path_def)
    from save_image_frame[OF this, of E w]
    have s: "files (world_of (save_image E opts sp (int k + 1) n title (int j0 + 1) m u w)) p = files w p" .
    show ?thesis
    proof (cases "save_image E opts sp (int k + 1) n title (int j0 + 1) m u w")
      case (Finished w1)
      with s Cons.prems have
        "files (world_of (save_images E opts sp (int k + 1) n title m (int (Suc j0) + 1) rest w1)) p \<noteq> files w1 p"
        by (simp add: idx)
      from Cons.IH[OF this] show ?thesis by auto
    next
      case (Aborted e w1)
      with s Cons.prems show ?thesis by simp
    qed
  qed
qed

lemma save_episode_changed:
  assumes "files (world_of (save_episode E opts sp n (int k + 1) ep w)) p \<noteq> files w p"
  shows "p \<in> set (episode_files E opts sp n k ep)"
proof (cases "episode_reply E (ep_id ep)")
  case None
  with assms show ?thesis by (simp add: save_episode_def)
next
  case (Some html)
  show ?thesis
  proof (cases "parse_comic_images html = []")
    case True
    with Some assms show ?thesis
      by (auto simp: save_episode_prose episode_files_def prose_path_def split: if_splits)
  next
    case False
    with Some assms have
      "files (world_of (save_images E opts sp (int k + 1) n (ep_title ep)
          (int (length (parse_comic_images html))) (int 0 + 1) (parse_comic_images html)
          (log_request (EpisodeGet (ep_id ep)) w))) p
        \<noteq> files (log_request (EpisodeGet (ep_id ep)) w) p"
      by (simp add: save_episode_gallery)
    from save_images_changed[OF this] show ?thesis
      using Some False by (simp add: episode_files_def)
  qed
qed

lemma episode_loop_changed:
  assumes "files (world_of (episode_loop E opts sp n (int k0 + 1) eps w)) p \<noteq> files w p"
  shows "\<exists>(k, ep)\<in>set (enumerate k0 eps). p \<in> set (episode_files E opts sp n k ep)"
  using assms
proof (induction eps arbitrary: k0 w)
  case Nil
  then show ?case by simp
next
  case (Cons ep rest)
  have idx: "int k0 + 1 + 1 = int (Suc k0) + 1" by simp
  show ?case
  proof (cases "files (world_of (save_episode E opts sp n (int k0 + 1) ep w)) p = files w p")
    case False
    from save_episode_changed[OF this] show ?thesis by simp
  next
    case True
    show ?thesis
    proof (cases "save_episode E opts sp n (int k0 + 1) ep w")
      case (Finished w1)
      with True Cons.prems have
        "files (world_of (episode_loop E opts sp n (int (Suc k0) + 1) rest w1)) p \<noteq> files w1 p"
        by (simp add: idx)
      from Cons.IH[OF this] show ?thesis by auto
    next
      case (Aborted e w1)
      with True Cons.prems show ?thesis by simp
    qed
  qed
qed

lemma episode_files_area: "set (episode_files E opts sp n k ep) \<subseteq> episode_area sp n k"
  by (auto simp: episode_files_def image_path_area prose_path_area split: option.splits)

lemma area_not_prefix: "p \<in> episode_area sp n k \<Longrightarrow> p \<notin> set (prefixes sp)"
  by (auto simp: episode_area_def in_set_prefixes prefix_def)

lemma mkdir_parents_other:
  "p \<notin> set (prefixes sp) \<Longrightarrow> files (mkdir_parents sp w) p = files w p"
  by (simp add: mkdir_parents_def)

lemma requests_mkdir_parents [simp]: "requests (mkdir_parents sp w) = requests w"
  by (simp add: mkdir_parents_def)

lemma episode_saved_exists:
  assumes "episode_saved E opts sp n w w' k ep"
    and "list_all (\<lambda>img_url. image_reply E img_url \<noteq> None) (gallery_of E ep)"
  shows "\<forall>p\<in>set (episode_files E opts sp n k ep). path_exists w' p"
proof (cases "episode_reply E (ep_id ep)")
  case None
  then show ?thesis by (simp add: episode_files_def)
next
  case (Some html)
  show ?thesis
  proof (cases "parse_comic_images html = []")
    case True
    with Some assms(1) show ?thesis
      by (simp add: episode_files_def episode_saved_def path_exists_def)
  next
    case False
    let ?imgs = "parse_comic_images html"
    let ?P = "\<lambda>j u. image_path opts sp n k (ep_title ep) (int (length ?imgs)) j u"
    have avail: "\<forall>u\<in>set ?imgs. image_reply E u \<noteq> None"
      using assms(2) Some by (simp add: gallery_of_def list_all_iff)
    have own: "\<forall>(j, u)\<in>set (enumerate 0 ?imgs). files w' (?P j u) =
            (if path_exists w (?P j u) then files w (?P j u)
             else map_option (\<lambda>imgdata. File (Binary imgdata)) (image_reply E u))"
      using assms(1) Some False by (simp add: episode_saved_def list_all_iff)
    have "path_exists w' (?P j u)" if "(j, u) \<in> set (enumerate 0 ?imgs)" for j u
    proof -
      from that have "u \<in> set ?imgs" by (auto simp: in_set_enumerate_eq)
      with avail obtain b where "image_reply E u = Some b" by auto
      moreover from own that have "files w' (?P j u) =
            (if path_exists w (?P j u) then files w (?P j u)
             else map_option (\<lambda>imgdata. File (Binary imgdata)) (image_reply E u))"
        by blast
      ultimately show ?thesis by (cases "path_exists w (?P j u)") (simp_all add: path_exists_def)
    qed
    then show ?thesis using Some False by (auto simp: episode_files_def)
  qed
qed

lemma process_series_run:
  assumes "get_series_id url = Inr sid" and "py_int E sid = Some n"
    and "series_reply E n = SeriesObject sr"
    and "all_fetchable E (series_entries sr)"
    and "\<not> path_exists w (save_path opts (series_title sr) sid) \<or> opt_force opts"
  shows "\<exists>w'. process_series E opts url w = Finished w' \<and>
      requests w' = requests w @ SeriesQuery n #
        concat (map (\<lambda>(k, ep). episode_requests E opts (save_path opts (series_title sr) sid)
                                   (int (length (series_entries sr))) w k ep)
                  (enumerate 0 (series_entries sr))) \<and>
      (\<forall>(k, ep)\<in>set (enumerate 0 (series_entries sr)).
          episode_saved E opts (save_path opts (series_title sr) sid)
            (int (length (series_entries sr))) w w' k ep) \<and>
      path_exists w' (save_path opts (series_title sr) sid)"
proof -
  let ?sp = "save_path opts (series_title sr) sid"
  let ?eps = "series_entries sr"
  let ?N = "int (length ?eps)"
  let ?w1 = "log_request (SeriesQuery n) w"
  let ?w0 = "if \<not> path_exists w ?sp then mkdir_parents ?sp ?w1 else ?w1"
  have ps: "process_series E opts url w = episode_loop E opts ?sp ?N (int 0 + 1) ?eps ?w0"
    using assms(5) by (simp add: process_series_found[OF assms(1-3)])
  have agree: "\<forall>p\<in>episode_area ?sp ?N k. files ?w0 p = files w p" for k
    using area_not_prefix[of _ ?sp ?N k] by (simp add: mkdir_parents_other)
  have req0: "requests ?w0 = requests w @ [SeriesQuery n]" by simp
  have "int 0 + int (length ?eps) \<le> ?N" by simp
  from episode_loop_run[OF this assms(4), of opts ?sp ?w0] obtain w' where
    run: "episode_loop E opts ?sp ?N (int 0 + 1) ?eps ?w0 = Finished w'"
    and req: "requests w' = requests ?w0 @
        concat (map (\<lambda>(k, ep). episode_requests E opts ?sp ?N ?w0 k ep) (enumerate 0 ?eps))"
    and saved: "\<forall>(k, ep)\<in>set (enumerate 0 ?eps). episode_saved E opts ?sp ?N ?w0 w' k ep"
    by blast
  have r1: "process_series E opts url w = Finished w'" using ps run by simp
  have "episode_requests E opts ?sp ?N ?w0 k ep = episode_requests E opts ?sp ?N w k ep" for k ep
    by (rule episode_requests_agree) (rule agree)
  with req have r2: "requests w' = requests w @ SeriesQuery n #
        concat (map (\<lambda>(k, ep). episode_requests E opts ?sp ?N w k ep) (enumerate 0 ?eps))"
    by (simp only: req0) simp
  have "episode_saved E opts ?sp ?N ?w0 w' k ep = episode_saved E opts ?sp ?N w w' k ep" for k ep
    by (rule episode_saved_agree) (rule agree, simp)
  with saved have r3: "\<forall>(k, ep)\<in>set (enumerate 0 ?eps). episode_saved E opts ?sp ?N w w' k ep"
    by simp
  have r4: "path_exists w' ?sp"
    using process_series_leaves_dir[OF assms(1-3), of opts w] r1 by simp
  from r1 r2 r3 r4 show ?thesis by blast
qed

lemma process_series_changed:
  assumes "get_series_id url = Inr sid" and "py_int E sid = Some n"
    and "series_reply E n = SeriesObject sr"
    and "files (world_of (process_series E opts url w)) p \<noteq> files w p"
  shows "p \<in> set (prefixes (save_path opts (series_title sr) sid)) \<or>
     (\<exists>(k, ep)\<in>set (enumerate 0 (series_entries sr)).
        p \<in> set (episode_files E opts (save_path opts (series_title sr) sid)
                    (int (length (series_entries sr))) k ep))"
proof (rule disjCI)
  let ?sp = "save_path opts (series_title sr) sid"
  let ?eps = "series_entries sr"
  let ?N = "int (length ?eps)"
  let ?w1 = "log_request (SeriesQuery n) w"
  let ?w0 = "if \<not> path_exists w ?sp then mkdir_parents ?sp ?w1 else ?w1"
  assume "\<not> (\<exists>(k, ep)\<in>set (enumerate 0 ?eps). p \<in> set (episode_files E opts ?sp ?N k ep))"
  with episode_loop_changed[of E opts ?sp ?N 0 ?eps ?w0 p]
  have loop: "files (world_of (episode_loop E opts ?sp ?N (int 0 + 1) ?eps ?w0)) p = files ?w0 p"
    by blast
  show "p \<in> set (prefixes ?sp)"
  proof (rule ccontr)
    assume np: "p \<notin> set (prefixes ?sp)"
    then have w0: "files ?w0 p = files w p" by (simp add: mkdir_parents_other)
    have "files (world_of (process_series E opts url w)) p = files w p"
    proof (cases "\<not> path_exists w ?sp \<or> opt_force opts")
      case True
      then have "process_series E opts url w = episode_loop E opts ?sp ?N (int 0 + 1) ?eps ?w0"
        by (simp add: process_series_found[OF assms(1-3)])
      with loop w0 show ?thesis by simp
    next
      case False
      then show ?thesis by (simp add: process_series_found[OF assms(1-3)])
    qed
    with assms(4) show False by simp
  qed
qed

section \<open>The gallery of an episode\<close>

text \<open>
  Claim C6: in the image loop, an image whose file already exists is neither fetched nor
  written (the world is unchanged by that step), and an image whose file is missing is
  fetched and the bytes received are written as they are; no file that existed before
  the gallery loop is changed by it. For a whole gallery whose images can be fetched,
  with the images counted from 1 over the full gallery: the episode ends without error,
  the image requests made are exactly those of the images whose file was missing, in
  order, every image file that was there keeps its content, every other image file
  holds the bytes at its URL, and no other file is touched. The prose file of an episode
  is written without an existence check, whatever was at its path before.
\<close>

theorem image_skip_prose_overwrite:
  "(path_exists w (savePath @ [image_fname opts ep_idx n_eps img_idx n_imgs title img_url]) \<longrightarrow>
      save_image E opts savePath ep_idx n_eps title img_idx n_imgs img_url w = Finished w) \<and>
   (\<not> path_exists w (savePath @ [image_fname opts ep_idx n_eps img_idx n_imgs title img_url]) \<and>
    image_reply E img_url = Some imgdata \<longrightarrow>
      save_image E opts savePath ep_idx n_eps title img_idx n_imgs img_url w =
        Finished (w\<lparr>requests := requests w @ [ImageGet img_url],
                    files := (files w)(savePath @ [image_fname opts ep_idx n_eps img_idx n_imgs title img_url]
                                \<mapsto> File (Binary imgdata))\<rparr>)) \<and>
   (path_exists w p \<longrightarrow>
      files (world_of (save_images E opts savePath ep_idx n_eps title n_imgs img_idx imgs w)) p = files w p) \<and>
   (episode_reply E (ep_id ep) = Some html \<and> parse_comic_images html = [] \<longrightarrow>
      files (world_of (save_episode E opts savePath n_eps ep_idx ep w))
        (savePath @ [prose_fname opts ep_idx n_eps (ep_title ep)])
      = Some (File (Text (parse_novel_text html))) \<and>
      requests (world_of (save_episode E opts savePath n_eps ep_idx ep w))
      = requests w @ [EpisodeGet (ep_id ep)]) \<and>
   (episode_reply E (ep_id ep) = Some html \<and> parse_comic_images html \<noteq> [] \<and>
    (\<forall>u\<in>set (parse_comic_images html). image_reply E u \<noteq> None) \<longrightarrow>
      (\<exists>w'. save_episode E opts savePath n (int k + 1) ep w = Finished w' \<and>
         requests w' = requests w @ EpisodeGet (ep_id ep) #
           gallery_requests opts savePath n k (ep_title ep) (parse_comic_images html) w \<and>
         (\<forall>(j, u)\<in>set (enumerate 0 (parse_comic_images html)).
            files w' (image_path opts savePath n k (ep_title ep)
                        (int (length (parse_comic_images html))) j u) =
              (if path_exists w (image_path opts savePath n k (ep_title ep)
                                   (int (length (parse_comic_images html))) j u)
               then files w (image_path opts savePath n k (ep_title ep)
                               (int (length (parse_comic_images html))) j u)
               else map_option (\<lambda>imgdata. File (Binary imgdata)) (image_reply E u))) \<and>
         (\<forall>q. q \<notin> set (episode_files E opts savePath n k ep) \<longrightarrow> files w' q = files w q)))"
proof -
  have gallery: "\<exists>w'. save_episode E opts savePath n (int k + 1) ep w = Finished w' \<and>
         requests w' = requests w @ EpisodeGet (ep_id ep) #
           gallery_requests opts savePath n k (ep_title ep) (parse_comic_images html) w \<and>
         (\<forall>(j, u)\<in>set (enumerate 0 (parse_comic_images html)).
            files w' (image_path opts savePath n k (ep_title ep)
                        (int (length (parse_comic_images html))) j u) =
              (if path_exists w (image_path opts savePath n k (ep_title ep)
                                   (int (length (parse_comic_images html))) j u)
               then files w (image_path opts savePath n k (ep_title ep)
                               (int (length (parse_comic_images html))) j u)
               else map_option (\<lambda>imgdata. File (Binary imgdata)) (image_reply E u))) \<and>
         (\<forall>q. q \<notin> set (episode_files E opts savePath n k ep) \<longrightarrow> files w' q = files w q)"
    if h: "episode_reply E (ep_id ep) = Some html" and ne: "parse_comic_images html \<noteq> []"
      and av: "\<forall>u\<in>set (parse_comic_images html). image_reply E u \<noteq> None"
  proof -
    have g: "gallery_of E ep = parse_comic_images html" using h by (simp add: gallery_of_def)
    have a1: "episode_reply E (ep_id ep) \<noteq> None" using h by simp
    have a2: "list_all (\<lambda>img_url. image_reply E img_url \<noteq> None) (gallery_of E ep)"
      using av by (simp add: g list_all_iff)
    from save_episode_run[OF a1 a2, of opts savePath n k w] obtain w' where
      run: "save_episode E opts savePath n (int k + 1) ep w = Finished w'"
      and req: "requests w' = requests w @ episode_requests E opts savePath n w k ep"
      and saved: "episode_saved E opts savePath n w w' k ep"
      by blast
    have r2: "requests w' = requests w @ EpisodeGet (ep_id ep) #
           gallery_requests opts savePath n k (ep_title ep) (parse_comic_images html) w"
      using req by (simp add: episode_requests_def g)
    have r3: "\<forall>(j, u)\<in>set (enumerate 0 (parse_comic_images html)).
            files w' (image_path opts savePath n k (ep_title ep)
                        (int (length (parse_comic_images html))) j u) =
              (if path_exists w (image_path opts savePath n k (ep_title ep)
                                   (int (length (parse_comic_images html))) j u)
               then files w (image_path opts savePath n k (ep_title ep)
                               (int (length (parse_comic_images html))) j u)
               else map_option (\<lambda>imgdata. File (Binary imgdata)) (image_reply E u))"
      using saved h ne by (simp add: episode_saved_def list_all_iff)
    have r4: "\<forall>q. q \<notin> set (episode_files E opts savePath n k ep) \<longrightarrow> files w' q = files w q"
      using save_episode_changed[of E opts savePath n k ep w] run by auto
    from run r2 r3 r4 show ?thesis by blast
  qed
  from image_step_and_prose[of w savePath opts ep_idx n_eps img_idx n_imgs title img_url E imgdata p imgs ep html]
    gallery
  show ?thesis by blast
qed

theorem image_skip_prose_overwrite_witness:
  "path_exists ex_partial ([''d''] @ [image_fname ex_opts 1 3 1 2 ''One'' ''https://cdn.example/a.png'']) \<and>
   save_image ex_env ex_opts [''d''] 1 3 ''One'' 1 2 ''https://cdn.example/a.png'' ex_partial
     = Finished ex_partial \<and>
   episode_reply ex_env (ep_id \<lparr>ep_id = 11, ep_title = ''One''\<rparr>) = Some ex_comic \<and>
   parse_comic_images ex_comic = [''https://cdn.example/a.png'', ''https://cdn.example/b.png''] \<and>
   image_reply ex_env ''https://cdn.example/a.png'' = Some [1, 2] \<and>
   image_reply ex_env ''https://cdn.example/b.png'' = Some [3] \<and>
   files ex_partial [''d'', ''1 - 1 - One.png''] = Some (File (Binary [9])) \<and>
   files ex_partial [''d'', ''1 - 2 - One.png''] = None \<and>
   (\<exists>w'. save_episode ex_env ex_opts [''d''] 3 (int 0 + 1) \<lparr>ep_id = 11, ep_title = ''One''\<rparr> ex_partial
            = Finished w' \<and>
         requests w' = [EpisodeGet 11, ImageGet ''https://cdn.example/b.png''] \<and>
         files w' [''d'', ''1 - 1 - One.png''] = Some (File (Binary [9])) \<and>
         files w' [''d'', ''1 - 2 - One.png''] = Some (File (Binary [3])) \<and>
         files w' [''d'', ''2 - Two.txt''] = Some (File (Text ''old''))) \<and>
   episode_reply ex_env (ep_id \<lparr>ep_id = 12, ep_title = ''Two''\<rparr>) = Some ex_novel \<and>
   parse_comic_images ex_novel = [] \<and>
   files (world_of (save_episode ex_env ex_opts [''d''] 3 2 \<lparr>ep_id = 12, ep_title = ''Two''\<rparr> ex_partial))
     [''d'', ''2 - Two.txt'']
   = Some (File (Text (''First.'' @ [CHR 0x0A, CHR 0x0A] @ ''Second.'')))"
proof -
  let ?a = "''https://cdn.example/a.png''" and ?b = "''https://cdn.example/b.png''"
  let ?e1 = "\<lparr>ep_id = 11, ep_title = ''One''\<rparr>"
  let ?e2 = "\<lparr>ep_id = 12, ep_title = ''Two''\<rparr>"
  have fa: "image_fname ex_opts 1 3 1 2 ''One'' ?a = ''1 - 1 - One.png''" by code_simp
  have pa: "image_path ex_opts [''d''] 3 0 ''One'' 2 0 ?a = [''d'', ''1 - 1 - One.png'']" by code_simp
  have pb: "image_path ex_opts [''d''] 3 0 ''One'' 2 (Suc 0) ?b = [''d'', ''1 - 2 - One.png'']" by code_simp
  have ft: "prose_fname ex_opts 2 3 ''Two'' = ''2 - Two.txt''" by code_simp
  have xa: "path_exists ex_partial [''d'', ''1 - 1 - One.png'']"
    by (simp add: path_exists_def ex_partial_def)
  have xb: "\<not> path_exists ex_partial [''d'', ''1 - 2 - One.png'']"
    by (simp add: path_exists_def ex_partial_def)
  have old: "files ex_partial [''d'', ''1 - 1 - One.png''] = Some (File (Binary [9]))"
    "files ex_partial [''d'', ''1 - 2 - One.png''] = None"
    "files ex_partial [''d'', ''2 - Two.txt''] = Some (File (Text ''old''))"
    by (simp_all add: ex_partial_def)
  have ra: "image_reply ex_env ?a = Some [1, 2]" and rb: "image_reply ex_env ?b = Some [3]"
    by (simp_all add: ex_env_def)
  have h1: "episode_reply ex_env (ep_id ?e1) = Some ex_comic" by (simp add: ex_env_def)
  have h2: "episode_reply ex_env (ep_id ?e2) = Some ex_novel" by (simp add: ex_env_def)
  have c1: "parse_comic_images ex_comic = [?a, ?b]" by code_simp
  have c2: "parse_comic_images ex_novel = []" by code_simp
  have nt: "parse_novel_text ex_novel = ''First.'' @ [CHR 0x0A, CHR 0x0A] @ ''Second.''" by code_simp
  have gr: "gallery_requests ex_opts [''d''] 3 0 ''One'' [?a, ?b] ex_partial = [ImageGet ?b]"
    by (simp add: gallery_requests_def enumerate_eq_zip pa pb xa xb upt_rec)
  have ef: "episode_files ex_env ex_opts [''d''] 3 0 ?e1 = [[''d'', ''1 - 1 - One.png''], [''d'', ''1 - 2 - One.png'']]"
    using h1 by (simp add: episode_files_def c1 enumerate_eq_zip pa pb upt_rec)
  note t1 = image_skip_prose_overwrite [where w = ex_partial and savePath = "[''d'']" and opts = ex_opts
      and ep_idx = 1 and n_eps = 3 and img_idx = 1 and n_imgs = 2 and title = "''One''" and img_url = ?a
      and E = ex_env and ep = ?e1 and html = ex_comic and n = 3 and k = 0]
  note t2 = image_skip_prose_overwrite [where w = ex_partial and savePath = "[''d'']" and opts = ex_opts
      and ep_idx = 2 and n_eps = 3 and E = ex_env and ep = ?e2 and html = ex_novel]
  from t1 xa have s1: "save_image ex_env ex_opts [''d''] 1 3 ''One'' 1 2 ?a ex_partial = Finished ex_partial"
    by (simp add: fa)
  have av: "\<forall>u\<in>set (parse_comic_images ex_comic). image_reply ex_env u \<noteq> None"
    by (simp add: c1 ra rb)
  have ne: "parse_comic_images ex_comic \<noteq> []" by (simp add: c1)
  from t1 h1 ne av obtain w' where
    run: "save_episode ex_env ex_opts [''d''] 3 (int 0 + 1) ?e1 ex_partial = Finished w'"
    and req: "requests w' = requests ex_partial @ EpisodeGet (ep_id ?e1) #
           gallery_requests ex_opts [''d''] 3 0 (ep_title ?e1) (parse_comic_images ex_comic) ex_partial"
    and own: "\<forall>(j, u)\<in>set (enumerate 0 (parse_comic_images ex_comic)).
            files w' (image_path ex_opts [''d''] 3 0 (ep_title ?e1)
                        (int (length (parse_comic_images ex_comic))) j u) =
              (if path_exists ex_partial (image_path ex_opts [''d''] 3 0 (ep_title ?e1)
                                   (int (length (parse_comic_images ex_comic))) j u)
               then files ex_partial (image_path ex_opts [''d''] 3 0 (ep_title ?e1)
                               (int (length (parse_comic_images ex_comic))) j u)
               else map_option (\<lambda>imgdata. File (Binary imgdata)) (image_reply ex_env u))"
    and frame: "\<forall>q. q \<notin> set (episode_files ex_env ex_opts [''d''] 3 0 ?e1) \<longrightarrow> files w' q = files ex_partial q"
    by blast
  have rp: "requests ex_partial = []" by (simp add: ex_partial_def)
  have q1: "requests w' = [EpisodeGet 11, ImageGet ?b]"
    using req by (simp add: c1 gr rp)
  have q2: "files w' [''d'', ''1 - 1 - One.png''] = Some (File (Binary [9]))"
    "files w' [''d'', ''1 - 2 - One.png''] = Some (File (Binary [3]))"
    using own by (simp_all add: c1 enumerate_eq_zip upt_rec pa pb xa xb old rb)
  have q3: "files w' [''d'', ''2 - Two.txt''] = Some (File (Text ''old''))"
    using frame by (simp add: ef old)
  from t2 h2 c2 have s4: "files (world_of (save_episode ex_env ex_opts [''d''] 3 2 ?e2 ex_partial))
     [''d'', ''2 - Two.txt''] = Some (File (Text (''First.'' @ [CHR 0x0A, CHR 0x0A] @ ''Second.'')))"
    by (simp add: ft nt)
  from run q1 q2 q3 have ex: "\<exists>w'. save_episode ex_env ex_opts [''d''] 3 (int 0 + 1) ?e1 ex_partial
            = Finished w' \<and>
         requests w' = [EpisodeGet 11, ImageGet ?b] \<and>
         files w' [''d'', ''1 - 1 - One.png''] = Some (File (Binary [9])) \<and>
         files w' [''d'', ''1 - 2 - One.png''] = Some (File (Binary [3])) \<and>
         files w' [''d'', ''2 - Two.txt''] = Some (File (Text ''old''))"
    by blast
  show ?thesis using xa s1 h1 c1 ra rb old ex h2 c2 s4 by (simp add: fa)
qed

section \<open>The files of a series\<close>

text \<open>
  Claim C2, as the code has it: the components of a file name are joined by
  \<open>space hyphen space\<close>, not by a bare hyphen. Whatever a series run changes in the file
  system is the destination directory (with its ancestors) or a file of one of its
  episodes: for the episode at position \<open>k\<close> (index \<open>k + 1\<close> of \<open>n\<close> episodes), the prose
  file \<open><k + 1> - <title>.txt\<close> or, for the image at position \<open>j\<close> of a gallery of \<open>m\<close>
  images, the file \<open><k + 1> - <j + 1> - <title>.<ext>\<close>; and when everything can be
  fetched, each of these files is there after the run. The title and the extension have
  gone through the sanitizer, the extension is what follows the last \<open>.\<close> of the image
  URL, and each index is padded with zeros to the number of digits of the size of its
  collection.
\<close>

theorem fname_layout:
  assumes "get_series_id url = Inr sid" and "py_int E sid = Some n"
    and "series_reply E n = SeriesObject sr"
  shows
    "(\<forall>p. files (world_of (process_series E opts url w)) p \<noteq> files w p \<longrightarrow>
        p \<in> set (prefixes (save_path opts (series_title sr) sid)) \<or>
        (\<exists>(k, ep)\<in>set (enumerate 0 (series_entries sr)).
           p \<in> set (episode_files E opts (save_path opts (series_title sr) sid)
                       (int (length (series_entries sr))) k ep))) \<and>
     (all_fetchable E (series_entries sr) \<and>
      (\<not> path_exists w (save_path opts (series_title sr) sid) \<or> opt_force opts) \<longrightarrow>
        (\<forall>(k, ep)\<in>set (enumerate 0 (series_entries sr)).
           \<forall>p\<in>set (episode_files E opts (save_path opts (series_title sr) sid)
                       (int (length (series_entries sr))) k ep).
             path_exists (world_of (process_series E opts url w)) p)) \<and>
     image_path opts savePath n_eps k title m j img_url =
       savePath @ [lead0 (int k + 1) n_eps @ '' - '' @ lead0 (int j + 1) m @ '' - ''
                   @ check_path title True (opt_restrict opts) @ ''.''
                   @ check_path (last (str_split img_url ''.'')) True (opt_restrict opts)] \<and>
     prose_path opts savePath n_eps k title =
       savePath @ [lead0 (int k + 1) n_eps @ '' - '' @ check_path title True (opt_restrict opts)
                   @ ''.txt''] \<and>
     (CHR ''.'' \<notin> set ext \<longrightarrow> last (str_split (a @ ''.'' @ ext) ''.'') = ext) \<and>
     (k < length (eps :: episode list) \<longrightarrow>
        length (lead0 (int k + 1) (int (length eps))) = length (str_int (int (length eps)))) \<and>
     (j < length (imgs :: string list) \<longrightarrow>
        length (lead0 (int j + 1) (int (length imgs))) = length (str_int (int (length imgs))))"
proof -
  let ?sp = "save_path opts (series_title sr) sid"
  let ?eps = "series_entries sr"
  let ?N = "int (length ?eps)"
  have c1: "\<forall>p. files (world_of (process_series E opts url w)) p \<noteq> files w p \<longrightarrow>
        p \<in> set (prefixes ?sp) \<or>
        (\<exists>(k, ep)\<in>set (enumerate 0 ?eps). p \<in> set (episode_files E opts ?sp ?N k ep))"
    using process_series_changed[OF assms] by blast
  have c2: "\<forall>(k, ep)\<in>set (enumerate 0 ?eps).
           \<forall>p\<in>set (episode_files E opts ?sp ?N k ep).
             path_exists (world_of (process_series E opts url w)) p"
    if f: "all_fetchable E ?eps" and g: "\<not> path_exists w ?sp \<or> opt_force opts"
  proof -
    from process_series_run[OF assms f g] obtain w' where
      run: "process_series E opts url w = Finished w'"
      and saved: "\<forall>(k, ep)\<in>set (enumerate 0 ?eps). episode_saved E opts ?sp ?N w w' k ep"
      by blast
    have "\<forall>p\<in>set (episode_files E opts ?sp ?N k ep). path_exists w' p"
      if m: "(k, ep) \<in> set (enumerate 0 ?eps)" for k ep
    proof -
      from m have "ep \<in> set ?eps" by (auto simp: in_set_enumerate_eq)
      with f have "list_all (\<lambda>img_url. image_reply E img_url \<noteq> None) (gallery_of E ep)"
        by (simp add: all_fetchable_def list_all_iff)
      moreover from saved m have "episode_saved E opts ?sp ?N w w' k ep" by blast
      ultimately show ?thesis by (rule episode_saved_exists[rotated])
    qed
    then show ?thesis using run by auto
  qed
  have c3: "image_path opts savePath n_eps k title m j img_url =
       savePath @ [lead0 (int k + 1) n_eps @ '' - '' @ lead0 (int j + 1) m @ '' - ''
                   @ check_path title True (opt_restrict opts) @ ''.''
                   @ check_path (last (str_split img_url ''.'')) True (opt_restrict opts)]"
    unfolding image_path_def by (simp only: image_fname_layout)
  have c4: "prose_path opts savePath n_eps k title =
       savePath @ [lead0 (int k + 1) n_eps @ '' - '' @ check_path title True (opt_restrict opts)
                   @ ''.txt'']"
    unfolding prose_path_def by (simp only: prose_fname_layout)
  have c5: "CHR ''.'' \<notin> set ext \<longrightarrow> last (str_split (a @ ''.'' @ ext) ''.'') = ext"
    using last_split_ext[of ext a] by blast
  have c6: "length (lead0 (int k + 1) (int (length xs))) = length (str_int (int (length xs)))"
    if "k < length xs" for k and xs :: "'a list"
    using that by (intro lead0_width) simp_all
  from c1 c2 c3 c4 c5 c6[of k eps] c6[of j imgs] show ?thesis by blast
qed

theorem fname_layout_witness:
  "get_series_id ''3'' = Inr ''3'' \<and> py_int ex_env ''3'' = Some 3 \<and>
   series_reply ex_env 3 = SeriesObject ex_series3 \<and>
   save_path ex_opts (series_title ex_series3) ''3'' = [''out'', ''Gamma [3]''] \<and>
   files (world_of (process_series ex_env ex_opts ''3'' ex_world)) [''out'', ''Gamma [3]'', ''2 - Two.txt'']
     \<noteq> files ex_world [''out'', ''Gamma [3]'', ''2 - Two.txt''] \<and>
   (\<exists>(k, ep)\<in>set (enumerate 0 (series_entries ex_series3)).
      [''out'', ''Gamma [3]'', ''2 - Two.txt'']
        \<in> set (episode_files ex_env ex_opts [''out'', ''Gamma [3]'']
                 (int (length (series_entries ex_series3))) k ep)) \<and>
   all_fetchable ex_env (series_entries ex_series3) \<and>
   \<not> path_exists ex_world [''out'', ''Gamma [3]''] \<and>
   path_exists (world_of (process_series ex_env ex_opts ''3'' ex_world))
     [''out'', ''Gamma [3]'', ''1 - 1 - One.png''] \<and>
   path_exists (world_of (process_series ex_env ex_opts ''3'' ex_world))
     [''out'', ''Gamma [3]'', ''1 - 2 - One.png''] \<and>
   path_exists (world_of (process_series ex_env ex_opts ''3'' ex_world))
     [''out'', ''Gamma [3]'', ''2 - Two.txt''] \<and>
   image_path ex_opts [''out'', ''Gamma [3]''] 2 0 ''One'' 2 (Suc 0) ''https://cdn.example/b.png''
     = [''out'', ''Gamma [3]'', ''1 - 2 - One.png''] \<and>
   prose_path ex_opts [''out'', ''Gamma [3]''] 2 (Suc 0) ''Two'' = [''out'', ''Gamma [3]'', ''2 - Two.txt''] \<and>
   CHR ''.'' \<notin> set ''png'' \<and>
   last (str_split (''https://cdn.example/b'' @ ''.'' @ ''png'') ''.'') = ''png'' \<and>
   Suc 0 < length (series_entries ex_series3) \<and>
   length (lead0 (int (Suc 0) + 1) (int (length (series_entries ex_series3)))) = 1 \<and>
   Suc 0 < length (parse_comic_images ex_comic) \<and>
   length (lead0 (int (Suc 0) + 1) (int (length (parse_comic_images ex_comic)))) = 1"
proof -
  let ?sp = "[''out'', ''Gamma [3]'']"
  let ?e1 = "\<lparr>ep_id = 11, ep_title = ''One''\<rparr>"
  let ?e2 = "\<lparr>ep_id = 12, ep_title = ''Two''\<rparr>"
  let ?out = "world_of (process_series ex_env ex_opts ''3'' ex_world)"
  have h1: "get_series_id ''3'' = Inr ''3''" by (simp add: get_series_id_def)
  have h2: "py_int ex_env ''3'' = Some 3" by (simp add: ex_env_def ex_int_def)
  have h3: "series_reply ex_env 3 = SeriesObject ex_series3" by (simp add: ex_env_def)
  have sp: "save_path ex_opts (series_title ex_series3) ''3'' = ?sp" by code_simp
  have en: "series_entries ex_series3 = [?e1, ?e2]" by (simp add: ex_series3_def)
  have enum: "enumerate 0 [?e1, ?e2] = [(0, ?e1), (Suc 0, ?e2)]" by (simp add: enumerate_eq_zip upt_rec)
  have f1: "episode_files ex_env ex_opts ?sp 2 0 ?e1
      = [[''out'', ''Gamma [3]'', ''1 - 1 - One.png''], [''out'', ''Gamma [3]'', ''1 - 2 - One.png'']]"
    by code_simp
  have f2: "episode_files ex_env ex_opts ?sp 2 (Suc 0) ?e2 = [[''out'', ''Gamma [3]'', ''2 - Two.txt'']]"
    by code_simp
  have af: "all_fetchable ex_env (series_entries ex_series3)" by code_simp
  have nx: "\<not> path_exists ex_world ?sp" by (simp add: path_exists_def ex_world_def)
  have ch: "files ?out [''out'', ''Gamma [3]'', ''2 - Two.txt'']
     \<noteq> files ex_world [''out'', ''Gamma [3]'', ''2 - Two.txt'']"
    by code_simp
  have np: "[''out'', ''Gamma [3]'', ''2 - Two.txt''] \<notin> set (prefixes ?sp)" by simp
  have ip: "image_path ex_opts ?sp 2 0 ''One'' 2 (Suc 0) ''https://cdn.example/b.png''
     = [''out'', ''Gamma [3]'', ''1 - 2 - One.png'']" by code_simp
  have pp: "prose_path ex_opts ?sp 2 (Suc 0) ''Two'' = [''out'', ''Gamma [3]'', ''2 - Two.txt'']"
    by code_simp
  have ci: "parse_comic_images ex_comic = [''https://cdn.example/a.png'', ''https://cdn.example/b.png'']"
    by code_simp
  have s2: "str_int 2 = ''2''" by code_simp
  note t = fname_layout [OF h1 h2 h3, where opts = ex_opts and w = ex_world and k = "Suc 0"
      and eps = "series_entries ex_series3" and j = "Suc 0" and imgs = "parse_comic_images ex_comic"
      and ext = "''png''" and a = "''https://cdn.example/b''"]
  from t ch np have m: "\<exists>(k, ep)\<in>set (enumerate 0 (series_entries ex_series3)).
      [''out'', ''Gamma [3]'', ''2 - Two.txt'']
        \<in> set (episode_files ex_env ex_opts ?sp (int (length (series_entries ex_series3))) k ep)"
    unfolding sp by blast
  from t af nx have all: "\<forall>(k, ep)\<in>set (enumerate 0 (series_entries ex_series3)).
           \<forall>p\<in>set (episode_files ex_env ex_opts ?sp (int (length (series_entries ex_series3))) k ep).
             path_exists ?out p"
    unfolding sp by blast
  then have e: "path_exists ?out [''out'', ''Gamma [3]'', ''1 - 1 - One.png'']"
    "path_exists ?out [''out'', ''Gamma [3]'', ''1 - 2 - One.png'']"
    "path_exists ?out [''out'', ''Gamma [3]'', ''2 - Two.txt'']"
    by (simp_all add: en enum f1 f2)
  from t have l1: "length (lead0 (int (Suc 0) + 1) (int (length (series_entries ex_series3)))) = 1"
    by (simp add: en s2)
  from t have l2: "length (lead0 (int (Suc 0) + 1) (int (length (parse_comic_images ex_comic)))) = 1"
    by (simp add: ci s2)
  from t have x: "last (str_split (''https://cdn.example/b'' @ ''.'' @ ''png'') ''.'') = ''png''"
    by simp
  show ?thesis
    using h1 h2 h3 sp ch m af nx e ip pp x l1 l2 by (simp add: en ci)
qed

section \<open>The gate of a series\<close>

text \<open>
  Claim C5: once the metadata of a series has been fetched, an existing destination
  without \<open>force\<close> ends the series before the episode loop (the world changes only by
  the logged metadata request); an existing destination with \<open>force\<close> goes on to the
  episode loop in the world as it is; a missing destination is created and the loop
  runs, and the directory is there when the series ends or is aborted. Where the loop
  runs and everything can be fetched, the series ends without error, the requests made
  are the metadata query and then, episode by episode, the page and the images whose
  file was missing, and every episode has been saved: prose texts are written over
  whatever was there, missing images are filled in, images that were there are kept.
\<close>

theorem series_gate:
  assumes "get_series_id url = Inr sid" and "py_int E sid = Some n"
    and "series_reply E n = SeriesObject sr"
  shows
    "(path_exists w (save_path opts (series_title sr) sid) \<and> \<not> opt_force opts \<longrightarrow>
        process_series E opts url w = Finished (log_request (SeriesQuery n) w)) \<and>
     (path_exists w (save_path opts (series_title sr) sid) \<and> opt_force opts \<longrightarrow>
        process_series E opts url w =
          episode_loop E opts (save_path opts (series_title sr) sid) (int (length (series_entries sr))) 1
            (series_entries sr) (log_request (SeriesQuery n) w)) \<and>
     (\<not> path_exists w (save_path opts (series_title sr) sid) \<longrightarrow>
        process_series E opts url w =
          episode_loop E opts (save_path opts (series_title sr) sid) (int (length (series_entries sr))) 1
            (series_entries sr)
            (mkdir_parents (save_path opts (series_title sr) sid) (log_request (SeriesQuery n) w)) \<and>
        files (mkdir_parents (save_path opts (series_title sr) sid) (log_request (SeriesQuery n) w))
          (save_path opts (series_title sr) sid) = Some Dir \<and>
        files (world_of (process_series E opts url w)) (save_path opts (series_title sr) sid) = Some Dir) \<and>
     (all_fetchable E (series_entries sr) \<and>
      (\<not> path_exists w (save_path opts (series_title sr) sid) \<or> opt_force opts) \<longrightarrow>
        (\<exists>w'. process_series E opts url w = Finished w' \<and>
           requests w' = requests w @ SeriesQuery n #
             concat (map (\<lambda>(k, ep). episode_requests E opts (save_path opts (series_title sr) sid)
                                        (int (length (series_entries sr))) w k ep)
                       (enumerate 0 (series_entries sr))) \<and>
           (\<forall>(k, ep)\<in>set (enumerate 0 (series_entries sr)).
               episode_saved E opts (save_path opts (series_title sr) sid)
                 (int (length (series_entries sr))) w w' k ep) \<and>
           path_exists w' (save_path opts (series_title sr) sid)))"
  using series_gate_branches[OF assms, where w = w and opts = opts]
    process_series_run[OF assms, where w = w and opts = opts]
  by blast

theorem series_gate_witness:
  "get_series_id ''3'' = Inr ''3'' \<and> py_int ex_env ''3'' = Some 3 \<and>
   series_reply ex_env 3 = SeriesObject ex_series3 \<and>
   save_path ex_opts (series_title ex_series3) ''3'' = [''out'', ''Gamma [3]''] \<and>
   all_fetchable ex_env (series_entries ex_series3) \<and>
   path_exists ex_forced [''out'', ''Gamma [3]''] \<and> \<not> opt_force ex_opts \<and>
   process_series ex_env ex_opts ''3'' ex_forced = Finished (log_request (SeriesQuery 3) ex_forced) \<and>
   opt_force (ex_opts\<lparr>opt_force := True\<rparr>) \<and>
   files ex_forced [''out'', ''Gamma [3]'', ''1 - 1 - One.png''] = Some (File (Binary [9])) \<and>
   files ex_forced [''out'', ''Gamma [3]'', ''1 - 2 - One.png''] = None \<and>
   files ex_forced [''out'', ''Gamma [3]'', ''2 - Two.txt''] = Some (File (Text ''old'')) \<and>
   (\<exists>w'. process_series ex_env (ex_opts\<lparr>opt_force := True\<rparr>) ''3'' ex_forced = Finished w' \<and>
         requests w' = [SeriesQuery 3, EpisodeGet 11, ImageGet ''https://cdn.example/b.png'', EpisodeGet 12] \<and>
         files w' [''out'', ''Gamma [3]'', ''1 - 1 - One.png''] = Some (File (Binary [9])) \<and>
         files w' [''out'', ''Gamma [3]'', ''1 - 2 - One.png''] = Some (File (Binary [3])) \<and>
         files w' [''out'', ''Gamma [3]'', ''2 - Two.txt'']
           = Some (File (Text (''First.'' @ [CHR 0x0A, CHR 0x0A] @ ''Second.'')))) \<and>
   \<not> path_exists ex_world [''out'', ''Gamma [3]''] \<and>
   (\<exists>w'. process_series ex_env ex_opts ''3'' ex_world = Finished w' \<and>
         requests w' = [SeriesQuery 3, EpisodeGet 11, ImageGet ''https://cdn.example/a.png'',
                        ImageGet ''https://cdn.example/b.png'', EpisodeGet 12] \<and>
         files w' [''out'', ''Gamma [3]''] = Some Dir \<and>
         files w' [''out'', ''Gamma [3]'', ''1 - 1 - One.png''] = Some (File (Binary [1, 2])) \<and>
         files w' [''out'', ''Gamma [3]'', ''1 - 2 - One.png''] = Some (File (Binary [3])) \<and>
         files w' [''out'', ''Gamma [3]'', ''2 - Two.txt'']
           = Some (File (Text (''First.'' @ [CHR 0x0A, CHR 0x0A] @ ''Second.''))))"
proof -
  let ?sp = "[''out'', ''Gamma [3]'']"
  let ?a = "''https://cdn.example/a.png''" and ?b = "''https://cdn.example/b.png''"
  let ?e1 = "\<lparr>ep_id = 11, ep_title = ''One''\<rparr>"
  let ?e2 = "\<lparr>ep_id = 12, ep_title = ''Two''\<rparr>"
  let ?f = "ex_opts\<lparr>opt_force := True\<rparr>"
  have h1: "get_series_id ''3'' = Inr ''3''" by (simp add: get_series_id_def)
  have h2: "py_int ex_env ''3'' = Some 3" by (simp add: ex_env_def ex_int_def)
  have h3: "series_reply ex_env 3 = SeriesObject ex_series3" by (simp add: ex_env_def)
  have sp: "save_path ex_opts (series_title ex_series3) ''3'' = ?sp" by code_simp
  have spf: "save_path ?f (series_title ex_series3) ''3'' = ?sp" by code_simp
  have en: "series_entries ex_series3 = [?e1, ?e2]" by (simp add: ex_series3_def)
  have enum: "enumerate 0 [?e1, ?e2] = [(0, ?e1), (Suc 0, ?e2)]" by (simp add: enumerate_eq_zip upt_rec)
  have af: "all_fetchable ex_env (series_entries ex_series3)" by code_simp
  have xd: "path_exists ex_forced ?sp" by (simp add: path_exists_def ex_forced_def)
  have nx: "\<not> path_exists ex_world ?sp" by (simp add: path_exists_def ex_world_def)
  have nf: "\<not> opt_force ex_opts" by (simp add: ex_opts_def)
  have old: "files ex_forced [''out'', ''Gamma [3]'', ''1 - 1 - One.png''] = Some (File (Binary [9]))"
    "files ex_forced [''out'', ''Gamma [3]'', ''1 - 2 - One.png''] = None"
    "files ex_forced [''out'', ''Gamma [3]'', ''2 - Two.txt''] = Some (File (Text ''old''))"
    by (simp_all add: ex_forced_def)
  have fresh: "files ex_world p = None" for p by (simp add: ex_world_def)
  have rq0: "requests ex_forced = []" "requests ex_world = []"
    by (simp_all add: ex_forced_def ex_world_def)
  have ep1: "episode_reply ex_env 11 = Some ex_comic"
    and ep2: "episode_reply ex_env 12 = Some ex_novel"
    by (simp_all add: ex_env_def)
  have ci: "parse_comic_images ex_comic = [?a, ?b]" by code_simp
  have cn: "parse_comic_images ex_novel = []" by code_simp
  have nt: "parse_novel_text ex_novel = ''First.'' @ [CHR 0x0A, CHR 0x0A] @ ''Second.''" by code_simp
  have ra: "image_reply ex_env ?a = Some [1, 2]" and rb: "image_reply ex_env ?b = Some [3]"
    by (simp_all add: ex_env_def)
  have enumi: "enumerate 0 [?a, ?b] = [(0, ?a), (Suc 0, ?b)]" by (simp add: enumerate_eq_zip upt_rec)
  have pa: "image_path opts ?sp 2 0 ''One'' 2 0 ?a = [''out'', ''Gamma [3]'', ''1 - 1 - One.png'']"
    if "opt_restrict opts = False" for opts
    using that by (simp add: image_path_def image_fname_layout check_path_def evil_chars_def
        str_split_def lead0_def zfill_def str_int_def str_nat.simps digit_char_def)
  have pb: "image_path opts ?sp 2 0 ''One'' 2 (Suc 0) ?b = [''out'', ''Gamma [3]'', ''1 - 2 - One.png'']"
    if "opt_restrict opts = False" for opts
    using that by (simp add: image_path_def image_fname_layout check_path_def evil_chars_def
        str_split_def lead0_def zfill_def str_int_def str_nat.simps digit_char_def)
  have pt: "prose_path opts ?sp 2 (Suc 0) ''Two'' = [''out'', ''Gamma [3]'', ''2 - Two.txt'']"
    if "opt_restrict opts = False" for opts
    using that by (simp add: prose_path_def prose_fname_layout check_path_def evil_chars_def
        lead0_def zfill_def str_int_def str_nat.simps digit_char_def)
  have r0: "opt_restrict ex_opts = False" "opt_restrict ?f = False" by (simp_all add: ex_opts_def)
  have saved_facts:
    "files w' [''out'', ''Gamma [3]'', ''1 - 1 - One.png'']
       = (if path_exists w [''out'', ''Gamma [3]'', ''1 - 1 - One.png'']
          then files w [''out'', ''Gamma [3]'', ''1 - 1 - One.png''] else Some (File (Binary [1, 2]))) \<and>
     files w' [''out'', ''Gamma [3]'', ''1 - 2 - One.png'']
       = (if path_exists w [''out'', ''Gamma [3]'', ''1 - 2 - One.png'']
          then files w [''out'', ''Gamma [3]'', ''1 - 2 - One.png''] else Some (File (Binary [3]))) \<and>
     files w' [''out'', ''Gamma [3]'', ''2 - Two.txt'']
       = Some (File (Text (''First.'' @ [CHR 0x0A, CHR 0x0A] @ ''Second.'')))"
    if s: "\<forall>(k, ep)\<in>set (enumerate 0 (series_entries ex_series3)).
             episode_saved ex_env opts ?sp (int (length (series_entries ex_series3))) w w' k ep"
      and r: "opt_restrict opts = False"
    for opts w w'
  proof -
    from s have s1: "episode_saved ex_env opts ?sp 2 w w' 0 ?e1"
      and s2: "episode_saved ex_env opts ?sp 2 w w' (Suc 0) ?e2"
      by (simp_all add: en enum)
    from s1 have a: "files w' [''out'', ''Gamma [3]'', ''1 - 1 - One.png'']
       = (if path_exists w [''out'', ''Gamma [3]'', ''1 - 1 - One.png'']
          then files w [''out'', ''Gamma [3]'', ''1 - 1 - One.png''] else Some (File (Binary [1, 2])))"
      and b: "files w' [''out'', ''Gamma [3]'', ''1 - 2 - One.png'']
       = (if path_exists w [''out'', ''Gamma [3]'', ''1 - 2 - One.png'']
          then files w [''out'', ''Gamma [3]'', ''1 - 2 - One.png''] else Some (File (Binary [3])))"
      unfolding episode_saved_def
      by (simp_all add: ep1 ci enumi pa[OF r] pb[OF r] ra rb)
    from s2 have c: "files w' [''out'', ''Gamma [3]'', ''2 - Two.txt'']
       = Some (File (Text (''First.'' @ [CHR 0x0A, CHR 0x0A] @ ''Second.'')))"
      unfolding episode_saved_def by (simp add: ep2 cn nt pt[OF r])
    from a b c show ?thesis by blast
  qed
  have rqf: "concat (map (\<lambda>(k, ep). episode_requests ex_env ?f ?sp (int (length (series_entries ex_series3)))
                                   ex_forced k ep) (enumerate 0 (series_entries ex_series3)))
      = [EpisodeGet 11, ImageGet ?b, EpisodeGet 12]"
    by code_simp
  have rqn: "concat (map (\<lambda>(k, ep). episode_requests ex_env ex_opts ?sp (int (length (series_entries ex_series3)))
                                   ex_world k ep) (enumerate 0 (series_entries ex_series3)))
      = [EpisodeGet 11, ImageGet ?a, ImageGet ?b, EpisodeGet 12]"
    by code_simp
  note t1 = series_gate [OF h1 h2 h3, where w = ex_forced and opts = ex_opts]
  note t2 = series_gate [OF h1 h2 h3, where w = ex_forced and opts = ?f]
  note t3 = series_gate [OF h1 h2 h3, where w = ex_world and opts = ex_opts]
  from t1 xd nf have skip: "process_series ex_env ex_opts ''3'' ex_forced
      = Finished (log_request (SeriesQuery 3) ex_forced)"
    unfolding sp by blast
  from t2 af have "\<exists>w'. process_series ex_env ?f ''3'' ex_forced = Finished w' \<and>
       requests w' = requests ex_forced @ SeriesQuery 3 #
         concat (map (\<lambda>(k, ep). episode_requests ex_env ?f ?sp (int (length (series_entries ex_series3)))
                                   ex_forced k ep) (enumerate 0 (series_entries ex_series3))) \<and>
       (\<forall>(k, ep)\<in>set (enumerate 0 (series_entries ex_series3)).
           episode_saved ex_env ?f ?sp (int (length (series_entries ex_series3))) ex_forced w' k ep)"
    unfolding spf by simp blast
  then obtain wf where
    runf: "process_series ex_env ?f ''3'' ex_forced = Finished wf"
    and reqf: "requests wf = requests ex_forced @ SeriesQuery 3 #
         concat (map (\<lambda>(k, ep). episode_requests ex_env ?f ?sp (int (length (series_entries ex_series3)))
                                   ex_forced k ep) (enumerate 0 (series_entries ex_series3)))"
    and savedf: "\<forall>(k, ep)\<in>set (enumerate 0 (series_entries ex_series3)).
           episode_saved ex_env ?f ?sp (int (length (series_entries ex_series3))) ex_forced wf k ep"
    by blast
  have forced: "\<exists>w'. process_series ex_env ?f ''3'' ex_forced = Finished w' \<and>
         requests w' = [SeriesQuery 3, EpisodeGet 11, ImageGet ?b, EpisodeGet 12] \<and>
         files w' [''out'', ''Gamma [3]'', ''1 - 1 - One.png''] = Some (File (Binary [9])) \<and>
         files w' [''out'', ''Gamma [3]'', ''1 - 2 - One.png''] = Some (File (Binary [3])) \<and>
         files w' [''out'', ''Gamma [3]'', ''2 - Two.txt'']
           = Some (File (Text (''First.'' @ [CHR 0x0A, CHR 0x0A] @ ''Second.'')))"
    using runf reqf saved_facts[OF savedf r0(2)]
    by (simp add: rqf rq0 old path_exists_def)
  from t3 af nx have "\<exists>w'. process_series ex_env ex_opts ''3'' ex_world = Finished w' \<and>
       requests w' = requests ex_world @ SeriesQuery 3 #
         concat (map (\<lambda>(k, ep). episode_requests ex_env ex_opts ?sp (int (length (series_entries ex_series3)))
                                   ex_world k ep) (enumerate 0 (series_entries ex_series3))) \<and>
       (\<forall>(k, ep)\<in>set (enumerate 0 (series_entries ex_series3)).
           episode_saved ex_env ex_opts ?sp (int (length (series_entries ex_series3))) ex_world w' k ep)"
    unfolding sp by blast
  then obtain wn where
    runn: "process_series ex_env ex_opts ''3'' ex_world = Finished wn"
    and reqn: "requests wn = requests ex_world @ SeriesQuery 3 #
         concat (map (\<lambda>(k, ep). episode_requests ex_env ex_opts ?sp (int (length (series_entries ex_series3)))
                                   ex_world k ep) (enumerate 0 (series_entries ex_series3)))"
    and savedn: "\<forall>(k, ep)\<in>set (enumerate 0 (series_entries ex_series3)).
           episode_saved ex_env ex_opts ?sp (int (length (series_entries ex_series3))) ex_world wn k ep"
    by blast
  from t3 nx have "files (world_of (process_series ex_env ex_opts ''3'' ex_world)) ?sp = Some Dir"
    unfolding sp by blast
  with runn have dirn: "files wn ?sp = Some Dir" by simp
  have new: "\<exists>w'. process_series ex_env ex_opts ''3'' ex_world = Finished w' \<and>
         requests w' = [SeriesQuery 3, EpisodeGet 11, ImageGet ?a, ImageGet ?b, EpisodeGet 12] \<and>
         files w' ?sp = Some Dir \<and>
         files w' [''out'', ''Gamma [3]'', ''1 - 1 - One.png''] = Some (File (Binary [1, 2])) \<and>
         files w' [''out'', ''Gamma [3]'', ''1 - 2 - One.png''] = Some (File (Binary [3])) \<and>
         files w' [''out'', ''Gamma [3]'', ''2 - Two.txt'']
           = Some (File (Text (''First.'' @ [CHR 0x0A, CHR 0x0A] @ ''Second.'')))"
    using runn reqn dirn saved_facts[OF savedn r0(1)]
    by (simp add: rqn rq0 fresh path_exists_def)
  show ?thesis
    using h1 h2 h3 sp af xd nf skip old forced nx new by simp
qed

end
